theory Spec2Isabelle
  imports Complex_Main "HOL-Library.Word" "HOL-Library.Log_Nat"
begin

unbundle bit_operations_syntax

section \<open>Sliding-window rate limiter (class RateLimiter)\<close>

text \<open>
  A limiter holds the timestamps (milliseconds, as returned by \<^verbatim>\<open>Date.now()\<close>) of the
  requests it has recorded, its limit, its window and its name. Every method reads the
  clock once; the reading is the first argument of the model's functions. Timestamps,
  limit and window are integers.
\<close>

record RateLimiter =
  requests :: "int list"
  limit :: int
  window :: int
  name :: string

definition newRateLimiter :: "int \<Rightarrow> int \<Rightarrow> string \<Rightarrow> RateLimiter" where
  "newRateLimiter L W n = \<lparr>requests = [], limit = L, window = W, name = n\<rparr>"

text \<open>\<^verbatim>\<open>this.requests = this.requests.filter(timestamp => now - timestamp < this.window)\<close>\<close>

definition cleanup :: "int \<Rightarrow> RateLimiter \<Rightarrow> RateLimiter" where
  "cleanup now rl =
     rl\<lparr>requests := filter (\<lambda>timestamp. now - timestamp < window rl) (requests rl)\<rparr>"

definition canMakeRequest :: "int \<Rightarrow> RateLimiter \<Rightarrow> bool \<times> RateLimiter" where
  "canMakeRequest now rl =
     (let rl' = cleanup now rl in (int (length (requests rl')) < limit rl', rl'))"

text \<open>
  The two errors the limiters throw. \<open>RateLimitExceeded\<close> carries what the message
  prints (name, limit, window); the compound limiter wraps the member's error.
\<close>

datatype rl_error = RateLimitExceeded string int int | CompoundRateLimitExceeded rl_error

text \<open>
  \<^verbatim>\<open>recordRequest\<close> prunes first, so the limiter is changed also when it throws: the
  result is the outcome paired with the limiter after the call.
\<close>

definition recordRequest :: "int \<Rightarrow> RateLimiter \<Rightarrow> (rl_error + unit) \<times> RateLimiter" where
  "recordRequest now rl =
     (let rl' = cleanup now rl in
      if int (length (requests rl')) \<ge> limit rl'
      then (Inl (RateLimitExceeded (name rl') (limit rl') (window rl')), rl')
      else (Inr (), rl'\<lparr>requests := requests rl' @ [now]\<rparr>))"

text \<open>
  A sequence of calls on one limiter. Beside the limiter the run keeps the list of all
  timestamps that \<^verbatim>\<open>recordRequest\<close> has admitted so far (a history the code does not
  store, used to state what the limiter guarantees).
\<close>

datatype rl_call = CanMakeRequest int | RecordRequest int

fun call_time :: "rl_call \<Rightarrow> int" where
  "call_time (CanMakeRequest now) = now"
| "call_time (RecordRequest now) = now"

fun rl_step :: "rl_call \<Rightarrow> RateLimiter \<times> int list \<Rightarrow> RateLimiter \<times> int list" where
  "rl_step (CanMakeRequest now) (rl, admitted) = (snd (canMakeRequest now rl), admitted)"
| "rl_step (RecordRequest now) (rl, admitted) =
     (case recordRequest now rl of
        (Inl e, rl') \<Rightarrow> (rl', admitted)
      | (Inr u, rl') \<Rightarrow> (rl', admitted @ [now]))"

definition rl_run :: "RateLimiter \<Rightarrow> rl_call list \<Rightarrow> RateLimiter \<times> int list" where
  "rl_run rl calls = fold rl_step calls (rl, [])"

text \<open>The admitted timestamps that lie in the trailing interval \<open>(T - W, T]\<close>.\<close>

definition in_trailing :: "int \<Rightarrow> int \<Rightarrow> int list \<Rightarrow> int list" where
  "in_trailing W T admitted = filter (\<lambda>t. T - W < t \<and> t \<le> T) admitted"

text \<open>
  The invariant of a run whose last call read the clock at \<open>t0\<close>: every admitted
  timestamp is at most \<open>t0\<close>, the stored window agrees with the history on what is
  still inside a window at any later time, and no trailing interval holds more than
  the limit.
\<close>

definition rl_inv :: "int \<Rightarrow> int \<Rightarrow> int \<Rightarrow> RateLimiter \<times> int list \<Rightarrow> bool" where
  "rl_inv L W t0 p \<longleftrightarrow>
     limit (fst p) = L \<and> window (fst p) = W \<and>
     (\<forall>t \<in> set (snd p). t \<le> t0) \<and>
     (\<forall>now. t0 \<le> now \<longrightarrow>
        filter (\<lambda>t. now - t < W) (snd p) = filter (\<lambda>t. now - t < W) (requests (fst p))) \<and>
     (\<forall>T. int (length (in_trailing W T (snd p))) \<le> L)"

section \<open>Compound rate limiter (class CompoundRateLimiter)\<close>

text \<open>
  \<^verbatim>\<open>limiters\<close> is a JavaScript \<^verbatim>\<open>Map\<close>, iterated in insertion order: an association
  list. \<^verbatim>\<open>Map.set\<close> replaces the value of a key that is present where it stands and
  appends a new key.
\<close>

type_synonym CompoundRateLimiter = "(string \<times> RateLimiter) list"

fun map_set :: "'k \<Rightarrow> 'v \<Rightarrow> ('k \<times> 'v) list \<Rightarrow> ('k \<times> 'v) list" where
  "map_set k v [] = [(k, v)]"
| "map_set k v ((k', v') # m) = (if k' = k then (k, v) # m else (k', v') # map_set k v m)"

definition addLimiter :: "string \<Rightarrow> int \<Rightarrow> int \<Rightarrow> CompoundRateLimiter \<Rightarrow> CompoundRateLimiter" where
  "addLimiter n L W c = map_set n (newRateLimiter L W n) c"

text \<open>
  The loop of \<^verbatim>\<open>canMakeRequest\<close> returns at the first member that does not admit;
  the members after it are not visited (and so not pruned).
\<close>

fun compound_canMakeRequest :: "int \<Rightarrow> CompoundRateLimiter \<Rightarrow> bool \<times> CompoundRateLimiter" where
  "compound_canMakeRequest now [] = (True, [])"
| "compound_canMakeRequest now ((n, rl) # rest) =
     (case canMakeRequest now rl of
        (False, rl') \<Rightarrow> (False, (n, rl') # rest)
      | (True, rl') \<Rightarrow>
          (case compound_canMakeRequest now rest of (b, rest') \<Rightarrow> (b, (n, rl') # rest')))"

text \<open>
  The loop of \<^verbatim>\<open>recordRequest\<close> calls each member's \<^verbatim>\<open>recordRequest\<close> in turn and
  rethrows, wrapped, the first error; nothing is undone. With no limiter the loop body
  never runs, as the early \<^verbatim>\<open>return\<close> of the source.
\<close>

fun compound_recordRequest ::
  "int \<Rightarrow> CompoundRateLimiter \<Rightarrow> (rl_error + unit) \<times> CompoundRateLimiter" where
  "compound_recordRequest now [] = (Inr (), [])"
| "compound_recordRequest now ((n, rl) # rest) =
     (case recordRequest now rl of
        (Inl e, rl') \<Rightarrow> (Inl (CompoundRateLimitExceeded e), (n, rl') # rest)
      | (Inr u, rl') \<Rightarrow>
          (case compound_recordRequest now rest of (r, rest') \<Rightarrow> (r, (n, rl') # rest')))"

text \<open>A member admits at \<open>now\<close> when its pruned window holds fewer than its limit.\<close>

definition admits :: "int \<Rightarrow> string \<times> RateLimiter \<Rightarrow> bool" where
  "admits now m = fst (canMakeRequest now (snd m))"

definition recorded :: "int \<Rightarrow> string \<times> RateLimiter \<Rightarrow> string \<times> RateLimiter" where
  "recorded now m = (fst m, (cleanup now (snd m))\<lparr>requests := requests (cleanup now (snd m)) @ [now]\<rparr>)"

definition pruned :: "int \<Rightarrow> string \<times> RateLimiter \<Rightarrow> string \<times> RateLimiter" where
  "pruned now m = (fst m, cleanup now (snd m))"

section \<open>The rate limiter keeps its window within the limit\<close>

lemma rl_invI:
  assumes "limit rl = L" "window rl = W" "\<And>t. t \<in> set adm \<Longrightarrow> t \<le> t0"
    and "\<And>now. t0 \<le> now \<Longrightarrow>
        filter (\<lambda>t. now - t < W) adm = filter (\<lambda>t. now - t < W) (requests rl)"
    and "\<And>T. int (length (in_trailing W T adm)) \<le> L"
  shows "rl_inv L W t0 (rl, adm)"
  using assms unfolding rl_inv_def by simp

lemma filter_filter_window:
  "t0 \<le> now \<Longrightarrow> filter (\<lambda>t. now - t < W) (filter (\<lambda>t. t0 - t < (W::int)) xs) = filter (\<lambda>t. now - t < W) xs"
  by (induction xs) auto

lemma in_trailing_snoc_before:
  "T < now \<Longrightarrow> in_trailing W T (xs @ [now]) = in_trailing W T xs"
  by (simp add: in_trailing_def)

lemma in_trailing_after:
  assumes "\<forall>t \<in> set xs. t \<le> now" "now \<le> T"
  shows "length (in_trailing W T xs) \<le> length (filter (\<lambda>t. now - t < W) xs)"
proof -
  have "in_trailing W T xs = filter (\<lambda>t. T - W < t \<and> t \<le> T) (filter (\<lambda>t. now - t < W) xs)"
    unfolding in_trailing_def filter_filter
    by (rule filter_cong) (use assms in auto)
  then show ?thesis by (simp only: length_filter_le)
qed

lemma rl_inv_init: "0 \<le> L \<Longrightarrow> rl_inv L W t0 (newRateLimiter L W n, [])"
  by (simp add: rl_inv_def newRateLimiter_def in_trailing_def)

lemma rl_inv_cleanup:
  assumes inv: "rl_inv L W t0 (rl, adm)" and le: "t0 \<le> now"
  shows "rl_inv L W now (cleanup now rl, adm)"
proof (rule rl_invI)
  show "limit (cleanup now rl) = L" "window (cleanup now rl) = W"
    using inv by (simp_all add: rl_inv_def cleanup_def)
  show "t \<le> now" if "t \<in> set adm" for t
    using inv le that by (fastforce simp: rl_inv_def)
  show "int (length (in_trailing W T adm)) \<le> L" for T
    using inv by (simp add: rl_inv_def)
  show "filter (\<lambda>t. n - t < W) adm = filter (\<lambda>t. n - t < W) (requests (cleanup now rl))"
    if "now \<le> n" for n
  proof -
    have w: "window rl = W" using inv by (simp add: rl_inv_def)
    have "filter (\<lambda>t. n - t < W) adm = filter (\<lambda>t. n - t < W) (requests rl)"
      using inv le that by (simp add: rl_inv_def)
    also have "\<dots> = filter (\<lambda>t. n - t < W) (filter (\<lambda>t. now - t < W) (requests rl))"
      using that by (simp only: filter_filter_window)
    finally show ?thesis by (simp add: cleanup_def w)
  qed
qed

lemma rl_inv_push:
  assumes inv: "rl_inv L W now (rl, adm)" and room: "int (length (requests rl)) < L"
  shows "rl_inv L W now (rl\<lparr>requests := requests rl @ [now]\<rparr>, adm @ [now])"
proof (rule rl_invI)
  show "limit (rl\<lparr>requests := requests rl @ [now]\<rparr>) = L"
       "window (rl\<lparr>requests := requests rl @ [now]\<rparr>) = W"
    using inv by (simp_all add: rl_inv_def)
  show le: "t \<le> now" if "t \<in> set (adm @ [now])" for t
    using inv that by (auto simp: rl_inv_def)
  have eq: "filter (\<lambda>t. n - t < W) adm = filter (\<lambda>t. n - t < W) (requests rl)" if "now \<le> n" for n
    using inv that by (simp add: rl_inv_def)
  show "filter (\<lambda>t. n - t < W) (adm @ [now]) =
        filter (\<lambda>t. n - t < W) (requests (rl\<lparr>requests := requests rl @ [now]\<rparr>))"
    if "now \<le> n" for n
    using eq [OF that] by simp
  show "int (length (in_trailing W T (adm @ [now]))) \<le> L" for T
  proof (cases "T < now")
    case True
    then show ?thesis using inv by (simp add: in_trailing_snoc_before rl_inv_def)
  next
    case False
    have "length (in_trailing W T (adm @ [now])) \<le> length (filter (\<lambda>t. now - t < W) (adm @ [now]))"
      using False le by (intro in_trailing_after) auto
    also have "\<dots> \<le> length (filter (\<lambda>t. now - t < W) adm) + 1"
      by simp
    also have "\<dots> \<le> length (requests rl) + 1"
      using eq [of now] by simp
    finally show ?thesis using room by simp
  qed
qed

lemma rl_inv_step:
  assumes inv: "rl_inv L W t0 p" and le: "t0 \<le> call_time c"
  shows "rl_inv L W (call_time c) (rl_step c p)"
proof (cases p)
  case (Pair rl adm)
  show ?thesis
  proof (cases c)
    case (CanMakeRequest now)
    then show ?thesis
      using rl_inv_cleanup [of L W t0 rl adm now] inv le Pair
      by (simp add: canMakeRequest_def Let_def)
  next
    case (RecordRequest now)
    have c: "rl_inv L W now (cleanup now rl, adm)"
      using rl_inv_cleanup [of L W t0 rl adm now] inv le Pair RecordRequest by simp
    have lim: "limit (cleanup now rl) = L" using c by (simp add: rl_inv_def)
    show ?thesis
    proof (cases "int (length (requests (cleanup now rl))) \<ge> L")
      case True
      then show ?thesis
        using c lim RecordRequest Pair by (simp add: recordRequest_def Let_def)
    next
      case False
      then have "rl_inv L W now ((cleanup now rl)\<lparr>requests := requests (cleanup now rl) @ [now]\<rparr>, adm @ [now])"
        using c by (intro rl_inv_push) auto
      then show ?thesis
        using False lim RecordRequest Pair by (simp add: recordRequest_def Let_def)
    qed
  qed
qed

lemma rl_inv_fold:
  "rl_inv L W t0 p \<Longrightarrow> sorted (t0 # map call_time calls) \<Longrightarrow>
   \<exists>t1. rl_inv L W t1 (fold rl_step calls p)"
proof (induction calls arbitrary: t0 p)
  case Nil
  then show ?case by auto
next
  case (Cons c calls)
  from Cons.prems have "rl_inv L W (call_time c) (rl_step c p)"
    by (intro rl_inv_step) auto
  moreover from Cons.prems have "sorted (call_time c # map call_time calls)" by simp
  ultimately show ?case using Cons.IH by simp
qed


text \<open>
  Claim C1. A limiter constructed with limit \<open>L\<close> (not negative) and window \<open>W\<close>
  receives any sequence of \<^verbatim>\<open>canMakeRequest\<close> and \<^verbatim>\<open>recordRequest\<close> calls at
  non-decreasing clock readings. Then, for every instant \<open>T\<close>, at most \<open>L\<close> of the
  admitted requests have their timestamp in the trailing interval \<open>(T - W, T]\<close>;
  a further \<^verbatim>\<open>recordRequest\<close> throws exactly when pruning leaves at least \<open>L\<close>
  timestamps; and when it does not throw, the window holds at most \<open>L\<close> timestamps
  right after it.
\<close>

theorem rate_limiter_window_bound:
  assumes "0 \<le> L" and "sorted (map call_time calls)"
    and "rl_run (newRateLimiter L W n) calls = (rl, admitted)"
  shows "int (length (in_trailing W T admitted)) \<le> L \<and>
         (isl (fst (recordRequest now rl))
            \<longleftrightarrow> L \<le> int (length (requests (cleanup now rl)))) \<and>
         (fst (recordRequest now rl) = Inr ()
            \<longrightarrow> int (length (requests (snd (recordRequest now rl)))) \<le> L)"
proof -
  obtain t0 where "sorted (t0 # map call_time calls)"
  proof (cases calls)
    case Nil
    then show ?thesis using that [of 0] by simp
  next
    case (Cons c cs)
    then show ?thesis using that [of "call_time c"] assms(2) by simp
  qed
  moreover have "rl_inv L W t0 (newRateLimiter L W n, [])"
    using assms(1) by (rule rl_inv_init)
  ultimately obtain t1 where "rl_inv L W t1 (fold rl_step calls (newRateLimiter L W n, []))"
    using rl_inv_fold by blast
  then have inv: "rl_inv L W t1 (rl, admitted)"
    using assms(3) by (simp add: rl_run_def)
  have lim: "limit (cleanup now rl) = L"
    using inv by (simp add: rl_inv_def cleanup_def)
  have "int (length (in_trailing W T admitted)) \<le> L"
    using inv by (simp add: rl_inv_def)
  moreover have "isl (fst (recordRequest now rl))
            \<longleftrightarrow> L \<le> int (length (requests (cleanup now rl)))"
    using lim by (simp add: recordRequest_def Let_def)
  moreover have "fst (recordRequest now rl) = Inr ()
            \<longrightarrow> int (length (requests (snd (recordRequest now rl)))) \<le> L"
    using lim by (simp add: recordRequest_def Let_def)
  ultimately show ?thesis by blast
qed

theorem rate_limiter_window_bound_witness:
  "rl_run (newRateLimiter 2 10 ''api'')
       [RecordRequest 0, RecordRequest 1, CanMakeRequest 2, RecordRequest 3,
        RecordRequest 11, RecordRequest 12]
     = (\<lparr>requests = [11, 12], limit = 2, window = 10, name = ''api''\<rparr>, [0, 1, 11, 12]) \<and>
   in_trailing 10 12 [0, 1, 11, 12] = [11, 12] \<and>
   int (length (in_trailing 10 12 [0, 1, 11, 12])) \<le> 2 \<and>
   isl (fst (recordRequest 13 \<lparr>requests = [11, 12], limit = 2, window = 10, name = ''api''\<rparr>)) \<and>
   fst (recordRequest 21 \<lparr>requests = [11, 12], limit = 2, window = 10, name = ''api''\<rparr>) = Inr () \<and>
   requests (snd (recordRequest 21 \<lparr>requests = [11, 12], limit = 2, window = 10, name = ''api''\<rparr>))
     = [12, 21]"
proof -
  have run: "rl_run (newRateLimiter 2 10 ''api'')
       [RecordRequest 0, RecordRequest 1, CanMakeRequest 2, RecordRequest 3,
        RecordRequest 11, RecordRequest 12]
     = (\<lparr>requests = [11, 12], limit = 2, window = 10, name = ''api''\<rparr>, [0, 1, 11, 12])"
    by (simp add: rl_run_def newRateLimiter_def recordRequest_def canMakeRequest_def
        cleanup_def Let_def)
  have h1: "(0::int) \<le> 2" by simp
  have h2: "sorted (map call_time [RecordRequest 0, RecordRequest 1, CanMakeRequest 2,
       RecordRequest 3, RecordRequest 11, RecordRequest 12])" by simp
  show ?thesis
    using rate_limiter_window_bound [OF h1 h2 run, of 12 13]
          rate_limiter_window_bound [OF h1 h2 run, of 12 21] run
    by (simp add: in_trailing_def recordRequest_def cleanup_def Let_def)
qed

section \<open>The compound limiter records member by member\<close>

lemma recordRequest_admits:
  "admits now (n, rl) \<Longrightarrow> recordRequest now rl = (Inr (), snd (recorded now (n, rl)))"
  by (simp add: admits_def canMakeRequest_def recordRequest_def recorded_def Let_def cleanup_def)

lemma recordRequest_full:
  "\<not> admits now (n, rl) \<Longrightarrow>
   recordRequest now rl = (Inl (RateLimitExceeded (name rl) (limit rl) (window rl)), cleanup now rl)"
  by (simp add: admits_def canMakeRequest_def recordRequest_def Let_def cleanup_def)

text \<open>
  Claim C2, as amended. The compound \<^verbatim>\<open>recordRequest\<close> fails exactly when some member
  does not admit, but it is not atomic: the members are recorded one after another in
  insertion order, so when the error is thrown the members before the first full one
  have already been pruned and have recorded the request, the full member has only been
  pruned, and the members after it are untouched. When every member admits, every member
  records.
\<close>

theorem compound_recordRequest_not_atomic:
  "(isl (fst (compound_recordRequest now c)) \<longleftrightarrow> \<not> list_all (admits now) c) \<and>
   snd (compound_recordRequest now c) =
     map (recorded now) (takeWhile (admits now) c) @
     (case dropWhile (admits now) c of [] \<Rightarrow> [] | m # rest \<Rightarrow> pruned now m # rest)"
proof (induction c)
  case Nil
  then show ?case by simp
next
  case (Cons m c)
  obtain n rl where m: "m = (n, rl)" by (cases m)
  show ?case
  proof (cases "admits now (n, rl)")
    case True
    then show ?thesis
      using Cons.IH m recordRequest_admits [OF True]
      by (cases "compound_recordRequest now c") (simp add: recorded_def)
  next
    case False
    then show ?thesis
      using m recordRequest_full [OF False] by (simp add: pruned_def)
  qed
qed

text \<open>
  The claim as stated (a failing compound record mutates no member) fails: with a member
  that admits in front of a member that is full, the call throws and the first member
  keeps the timestamp it recorded.
\<close>

theorem compound_recordRequest_partial_counterexample:
  "compound_recordRequest 500
     [(''minute'', \<lparr>requests = [], limit = 2, window = 60000, name = ''minute''\<rparr>),
      (''second'', \<lparr>requests = [0], limit = 1, window = 1000, name = ''second''\<rparr>)]
   = (Inl (CompoundRateLimitExceeded (RateLimitExceeded ''second'' 1 1000)),
     [(''minute'', \<lparr>requests = [500], limit = 2, window = 60000, name = ''minute''\<rparr>),
      (''second'', \<lparr>requests = [0], limit = 1, window = 1000, name = ''second''\<rparr>)])"
  by (simp add: recordRequest_def cleanup_def Let_def)


section \<open>Double-precision arithmetic\<close>

text \<open>
  JavaScript numbers are IEEE 754 double-precision values. A finite double is a rational
  \<open>m * 2 ^ e\<close> with \<open>\<bar>m\<bar> < 2 ^ 53\<close> and \<open>- 1074 \<le> e \<le> 971\<close>, and an arithmetic operation
  returns the exact result rounded to the nearest double, a tie going to the even
  significand. \<open>to_double\<close> is that rounding, gradual underflow included. Infinities are
  not represented: the quotient computed for a score stays far below \<open>2 ^ 1024\<close> as long
  as hit counters and clock readings are integers up to \<open>2 ^ 53\<close>, and the base delay
  computed for a backoff, the one value that can pass it, is cut by \<^verbatim>\<open>Math.min\<close> at
  once, with the same result as for an infinity. An integer of magnitude up to
  \<open>2 ^ 53\<close> is a double, so counters, sizes and clock readings are integers in the
  model.
\<close>

definition floor_log2 :: "rat \<Rightarrow> int" where
  "floor_log2 x =
     (case quotient_of x of (a, b) \<Rightarrow>
        (let e = bitlen a - bitlen b in if 2 powi e \<le> x then e else e - 1))"

definition quantum :: "rat \<Rightarrow> int" where
  "quantum x = max (floor_log2 \<bar>x\<bar> - 52) (- 1074)"

definition round_ties_even :: "rat \<Rightarrow> int" where
  "round_ties_even x =
     (let n = \<lfloor>x\<rfloor>; r = x - of_int n
      in if r < 1 / 2 then n else if 1 / 2 < r then n + 1 else if even n then n else n + 1)"

definition to_double :: "rat \<Rightarrow> rat" where
  "to_double x =
     (if x = 0 then 0
      else sgn x * of_int (round_ties_even (\<bar>x\<bar> / 2 powi quantum x)) * 2 powi quantum x)"

text \<open>The operators \<^verbatim>\<open>/\<close>, \<^verbatim>\<open>*\<close>, \<^verbatim>\<open>+\<close> and \<^verbatim>\<open>-\<close> on doubles.\<close>

definition fdiv :: "rat \<Rightarrow> rat \<Rightarrow> rat" where "fdiv x y = to_double (x / y)"
definition fmul :: "rat \<Rightarrow> rat \<Rightarrow> rat" where "fmul x y = to_double (x * y)"
definition fadd :: "rat \<Rightarrow> rat \<Rightarrow> rat" where "fadd x y = to_double (x + y)"
definition fsub :: "rat \<Rightarrow> rat \<Rightarrow> rat" where "fsub x y = to_double (x - y)"

section \<open>Rounding to a double is monotone, and exact on doubles\<close>

lemma two_powi_nat: "0 \<le> n \<Longrightarrow> (2::rat) powi n = 2 ^ nat n"
  by (simp add: power_int_def)

lemma two_powi_mono: "m \<le> n \<Longrightarrow> (2::rat) powi m \<le> 2 powi n"
  by (rule power_int_increasing) simp_all

lemma two_powi_less_cancel: "(2::rat) powi m < 2 powi n \<Longrightarrow> m < n"
  using two_powi_mono [of n m] by (cases "m < n") auto

lemma bitlen_rat_bounds:
  assumes "0 < a"
  shows "(2::rat) powi (bitlen a - 1) \<le> of_int a" and "of_int a < (2::rat) powi bitlen a"
proof -
  from bitlen_bounds [OF assms] have b: "2 ^ nat (bitlen a - 1) \<le> a" "a < 2 ^ nat (bitlen a)"
    by simp_all
  have ge: "1 \<le> bitlen a" using assms by (simp add: bitlen_alt_def)
  have "(of_int (2 ^ nat (bitlen a - 1)) :: rat) \<le> of_int a" using b(1) by (simp only: of_int_le_iff)
  then show "(2::rat) powi (bitlen a - 1) \<le> of_int a" using ge by (simp add: two_powi_nat)
  have "(of_int a :: rat) < of_int (2 ^ nat (bitlen a))" using b(2) by (simp only: of_int_less_iff)
  then show "of_int a < (2::rat) powi bitlen a" using ge by (simp add: two_powi_nat)
qed

lemma floor_log2_bounds:
  assumes "0 < x"
  shows "2 powi floor_log2 x \<le> x" and "x < 2 powi (floor_log2 x + 1)"
proof -
  obtain a b where q: "quotient_of x = (a, b)" by (cases "quotient_of x")
  then have b: "0 < b" and x: "x = of_int a / of_int b"
    using quotient_of_denom_pos [OF q] quotient_of_div [OF q] by simp_all
  have a: "0 < a" using assms b x by (simp add: zero_less_divide_iff)
  define e where "e = bitlen a - bitlen b"
  note A = bitlen_rat_bounds [OF a] and B = bitlen_rat_bounds [OF b]
  have bpos: "(0::rat) < of_int b" using b by simp
  have up: "x < 2 powi (e + 1)"
  proof -
    have "x < 2 powi bitlen a / of_int b" unfolding x using A(2) bpos by (simp add: divide_strict_right_mono)
    also have "\<dots> \<le> 2 powi bitlen a / 2 powi (bitlen b - 1)"
      using B(1) bpos by (intro divide_left_mono mult_pos_pos) simp_all
    also have "\<dots> = 2 powi (e + 1)"
      unfolding e_def using power_int_diff [of "2::rat" "bitlen a" "bitlen b - 1"] by (simp add: algebra_simps)
    finally show ?thesis .
  qed
  have lo: "2 powi (e - 1) \<le> x"
  proof -
    have "2 powi (e - 1) = 2 powi (bitlen a - 1) / (2::rat) powi bitlen b"
      unfolding e_def using power_int_diff [of "2::rat" "bitlen a - 1" "bitlen b"] by (simp add: algebra_simps)
    also have "\<dots> \<le> of_int a / 2 powi bitlen b"
      using A(1) by (intro divide_right_mono) simp_all
    also have "\<dots> \<le> of_int a / of_int b"
      using B(2) a bpos by (intro divide_left_mono mult_pos_pos) simp_all
    finally show ?thesis unfolding x .
  qed
  have fl: "floor_log2 x = (if 2 powi e \<le> x then e else e - 1)"
    by (simp add: floor_log2_def q e_def Let_def)
  show "2 powi floor_log2 x \<le> x" using lo by (simp add: fl)
  show "x < 2 powi (floor_log2 x + 1)" using up by (auto simp: fl not_le)
qed

lemma floor_log2_mono:
  assumes "0 < x" "x \<le> y"
  shows "floor_log2 x \<le> floor_log2 y"
proof -
  have "2 powi floor_log2 x \<le> x" using assms(1) by (rule floor_log2_bounds)
  also have "x \<le> y" by fact
  also have "y < 2 powi (floor_log2 y + 1)" using assms by (intro floor_log2_bounds) simp
  finally show ?thesis using two_powi_less_cancel by fastforce
qed

lemma floor_log2_less:
  assumes "0 < x" "x < 2 powi n"
  shows "floor_log2 x < n"
proof -
  have "2 powi floor_log2 x \<le> x" using assms(1) by (rule floor_log2_bounds)
  also have "x < 2 powi n" by fact
  finally show ?thesis by (rule two_powi_less_cancel)
qed

lemma round_ties_even_cases:
  "round_ties_even x = \<lfloor>x\<rfloor> \<and> x - of_int \<lfloor>x\<rfloor> \<le> 1 / 2 \<or>
   round_ties_even x = \<lfloor>x\<rfloor> + 1 \<and> 1 / 2 \<le> x - of_int \<lfloor>x\<rfloor>"
  by (auto simp: round_ties_even_def Let_def)

lemma round_ties_even_of_int [simp]: "round_ties_even (of_int n) = n"
  by (simp add: round_ties_even_def)

lemma round_ties_even_0 [simp]: "round_ties_even 0 = 0"
  by (simp add: round_ties_even_def)

lemma round_ties_even_mono:
  assumes "x \<le> y"
  shows "round_ties_even x \<le> round_ties_even y"
proof (cases "\<lfloor>x\<rfloor> = \<lfloor>y\<rfloor>")
  case True
  then have "x - of_int \<lfloor>x\<rfloor> \<le> y - of_int \<lfloor>y\<rfloor>" using assms by simp
  then show ?thesis using True by (auto simp: round_ties_even_def Let_def)
next
  case False
  then have "\<lfloor>x\<rfloor> < \<lfloor>y\<rfloor>" using floor_mono [OF assms] by simp
  moreover have "round_ties_even x \<le> \<lfloor>x\<rfloor> + 1" using round_ties_even_cases [of x] by auto
  moreover have "\<lfloor>y\<rfloor> \<le> round_ties_even y" using round_ties_even_cases [of y] by auto
  ultimately show ?thesis by linarith
qed

lemma quantum_mono:
  assumes "0 < x" "x \<le> y"
  shows "quantum x \<le> quantum y"
  using floor_log2_mono [OF assms] assms by (simp add: quantum_def)

lemma to_double_pos:
  assumes "0 < x"
  shows "to_double x = of_int (round_ties_even (x / 2 powi quantum x)) * 2 powi quantum x"
  using assms by (simp add: to_double_def)

lemma to_double_minus: "to_double (- x) = - to_double x"
  by (simp add: to_double_def quantum_def)

lemma to_double_nonneg: "0 \<le> x \<Longrightarrow> 0 \<le> to_double x"
proof -
  assume "0 \<le> x"
  have "0 \<le> round_ties_even (\<bar>x\<bar> / 2 powi quantum x)"
    using round_ties_even_mono [of 0 "\<bar>x\<bar> / 2 powi quantum x"] by simp
  then show ?thesis using \<open>0 \<le> x\<close> by (simp add: to_double_def)
qed

lemma to_double_mono_pos:
  assumes "0 < x" "x \<le> y"
  shows "to_double x \<le> to_double y"
proof (cases "quantum x = quantum y")
  case True
  have "x / 2 powi quantum y \<le> y / 2 powi quantum y"
    using assms(2) by (simp add: divide_right_mono)
  then have "round_ties_even (x / 2 powi quantum y) \<le> round_ties_even (y / 2 powi quantum y)"
    by (rule round_ties_even_mono)
  then have "(of_int (round_ties_even (x / 2 powi quantum y)) :: rat) * 2 powi quantum y
      \<le> of_int (round_ties_even (y / 2 powi quantum y)) * 2 powi quantum y"
    by (simp add: mult_right_mono)
  then show ?thesis using assms True by (simp add: to_double_pos)
next
  case False
  have y: "0 < y" using assms by simp
  from False have lt: "quantum x < quantum y" using quantum_mono [OF assms] by simp
  have "- 1074 \<le> quantum x" by (simp add: quantum_def)
  then have qy: "quantum y = floor_log2 y - 52" using y lt by (simp add: quantum_def max_def split: if_splits)
  have "floor_log2 x - 52 \<le> quantum x" using assms(1) by (simp add: quantum_def)
  then have "floor_log2 x + 1 \<le> quantum x + 53" by simp
  then have "2 powi (floor_log2 x + 1) \<le> (2::rat) powi (quantum x + 53)" by (rule two_powi_mono)
  then have "x < 2 powi (quantum x + 53)"
    using floor_log2_bounds(2) [OF assms(1)] by simp
  also have "\<dots> = 2 powi quantum x * 2 ^ 53"
    by (simp add: power_int_add)
  finally have "x / 2 powi quantum x \<le> of_int (2 ^ 53)"
    by (simp add: pos_divide_le_eq mult.commute)
  from round_ties_even_mono [OF this] have "round_ties_even (x / 2 powi quantum x) \<le> 2 ^ 53"
    by (simp only: round_ties_even_of_int)
  then have "(of_int (round_ties_even (x / 2 powi quantum x)) :: rat) \<le> of_int (2 ^ 53)"
    by (simp only: of_int_le_iff)
  then have "to_double x \<le> 2 ^ 53 * 2 powi quantum x"
    using assms(1) by (simp add: to_double_pos mult_right_mono)
  also have "\<dots> = 2 powi (quantum x + 53)" by (simp add: power_int_add)
  also have "\<dots> \<le> 2 powi (quantum y + 52)" using lt by (intro two_powi_mono) simp
  also have "\<dots> = 2 ^ 52 * 2 powi quantum y" by (simp add: power_int_add)
  also have "\<dots> \<le> to_double y"
  proof -
    have "2 powi quantum y * 2 ^ 52 = (2::rat) powi floor_log2 y"
      unfolding qy using power_int_add [of "2::rat" "floor_log2 y - 52" 52] by simp
    also have "\<dots> \<le> y" using y by (rule floor_log2_bounds)
    finally have "of_int (2 ^ 52) \<le> y / 2 powi quantum y"
      by (simp add: pos_le_divide_eq mult.commute)
    from round_ties_even_mono [OF this] have "2 ^ 52 \<le> round_ties_even (y / 2 powi quantum y)"
      by (simp only: round_ties_even_of_int)
    then have "(of_int (2 ^ 52) :: rat) \<le> of_int (round_ties_even (y / 2 powi quantum y))"
      by (simp only: of_int_le_iff)
    then show ?thesis using y by (simp add: to_double_pos mult_right_mono)
  qed
  finally show ?thesis .
qed

lemma to_double_mono:
  assumes "x \<le> y"
  shows "to_double x \<le> to_double y"
proof -
  consider "0 < x" | "x \<le> 0" "0 \<le> y" | "y < 0" by linarith
  then show ?thesis
  proof cases
    case 1
    then show ?thesis using assms by (rule to_double_mono_pos)
  next
    case 2
    have "to_double x = - to_double (- x)" by (simp add: to_double_minus)
    moreover have "0 \<le> to_double (- x)" using 2(1) by (intro to_double_nonneg) simp
    moreover have "0 \<le> to_double y" using 2(2) by (rule to_double_nonneg)
    ultimately show ?thesis by simp
  next
    case 3
    then have "to_double (- y) \<le> to_double (- x)" using assms by (intro to_double_mono_pos) simp_all
    then show ?thesis by (simp add: to_double_minus)
  qed
qed

lemma to_double_exact_pos:
  assumes "0 < k" "k < 2 ^ 53" "- 1074 \<le> e"
  shows "to_double (of_int k * 2 powi e) = of_int k * 2 powi e"
proof -
  define x :: rat where "x = of_int k * 2 powi e"
  define q where "q = quantum x"
  have x: "0 < x" using assms(1) by (simp add: x_def)
  have "(of_int k :: rat) < of_int (2 ^ 53)" using assms(2) by (simp only: of_int_less_iff)
  then have "x < 2 ^ 53 * 2 powi e" by (simp add: x_def)
  also have "\<dots> = 2 powi (e + 53)" by (simp add: power_int_add)
  finally have "floor_log2 x < e + 53" using x by (intro floor_log2_less)
  then have q: "q \<le> e" using assms(3) x by (simp add: quantum_def q_def)
  define d where "d = nat (e - q)"
  have e: "2 powi e = (2::rat) powi q * 2 ^ d"
    using q power_int_add [of "2::rat" q "e - q"] by (simp add: d_def two_powi_nat)
  have "x = of_int (k * 2 ^ d) * 2 powi q" by (simp add: x_def e)
  then have "x / 2 powi q = of_int (k * 2 ^ d)" by simp
  then have "round_ties_even (x / 2 powi q) = k * 2 ^ d"
    by (simp only: round_ties_even_of_int)
  then have "to_double x = of_int (k * 2 ^ d) * 2 powi q"
    using x by (simp add: to_double_pos q_def)
  also have "\<dots> = x" by (simp add: x_def e)
  finally show ?thesis by (simp add: x_def)
qed

lemma to_double_exact:
  assumes "\<bar>k\<bar> < 2 ^ 53" "- 1074 \<le> e"
  shows "to_double (of_int k * 2 powi e) = of_int k * 2 powi e"
proof -
  consider "0 < k" | "k = 0" | "k < 0" by linarith
  then show ?thesis
  proof cases
    case 1
    then show ?thesis using assms by (intro to_double_exact_pos) simp_all
  next
    case 2
    then show ?thesis by (simp add: to_double_def)
  next
    case 3
    then have "to_double (of_int (- k) * 2 powi e) = of_int (- k) * 2 powi e"
      using assms by (intro to_double_exact_pos) simp_all
    then show ?thesis using to_double_minus [of "of_int k * 2 powi e"] by simp
  qed
qed

lemma to_double_of_int: "\<bar>k\<bar> < 2 ^ 53 \<Longrightarrow> to_double (of_int k) = of_int k"
  using to_double_exact [of k 0] by simp

lemma to_double_le: "x \<le> b \<Longrightarrow> to_double b = b \<Longrightarrow> to_double x \<le> b"
  using to_double_mono [of x b] by simp

lemma to_double_ge: "a \<le> x \<Longrightarrow> to_double a = a \<Longrightarrow> a \<le> to_double x"
  using to_double_mono [of a x] by simp

lemma to_double_numeral_small [simp]:
  "to_double 0 = 0" "to_double 1 = 1" "to_double 2 = 2" "to_double (- 1) = - 1"
  "to_double (1 / 4) = 1 / 4"
proof -
  show "to_double 0 = 0" by (simp add: to_double_def)
  show "to_double 1 = 1" using to_double_of_int [of 1] by simp
  show "to_double 2 = 2" using to_double_of_int [of 2] by simp
  show "to_double (- 1) = - 1" using to_double_of_int [of "- 1"] by simp
  show "to_double (1 / 4) = 1 / 4" using to_double_exact [of 1 "- 2"] by (simp add: power_int_minus)
qed

section \<open>Cache (class CacheManager)\<close>

text \<open>
  Strings are lists of 8-bit characters. The store is a JavaScript \<^verbatim>\<open>Map\<close>: an
  association list in insertion order. Clock readings are milliseconds: \<open>now\<close> is the
  one reading of \<^verbatim>\<open>get\<close>, \<^verbatim>\<open>has\<close>, the sweep, and of \<^verbatim>\<open>set\<close> when it builds the
  entry; an eviction reads the clock once for every entry it scores. The size estimate
  (\<^verbatim>\<open>JSON.stringify(data).length * 2\<close>, or 1024 when the value does not serialise) is
  a parameter \<open>est\<close> of the model, a natural number as in the source.
\<close>

record 'a CacheEntry =
  data :: 'a
  timestamp :: int
  size_entry :: int
  hits :: nat
  expiresAt :: int

record 'a CacheManager =
  cache :: "(string \<times> 'a CacheEntry) list"
  sizeUsed :: int
  maxSize :: int
  defaultTTL :: int

definition newCacheManager :: "int option \<Rightarrow> int option \<Rightarrow> 'a CacheManager" where
  "newCacheManager maxSize_opt defaultTTL_opt =
     \<lparr>cache = [], sizeUsed = 0,
      maxSize = (case maxSize_opt of None \<Rightarrow> 50 * 1024 * 1024 | Some m \<Rightarrow> m),
      defaultTTL = (case defaultTTL_opt of None \<Rightarrow> 5 * 60 * 1000 | Some t \<Rightarrow> t)\<rparr>"

definition map_delete :: "'k \<Rightarrow> ('k \<times> 'v) list \<Rightarrow> ('k \<times> 'v) list" where
  "map_delete k m = filter (\<lambda>kv. fst kv \<noteq> k) m"

definition cache_delete :: "string \<Rightarrow> 'a CacheManager \<Rightarrow> bool \<times> 'a CacheManager" where
  "cache_delete key c =
     (case map_of (cache c) key of
        None \<Rightarrow> (False, c)
      | Some entry \<Rightarrow>
          (True, c\<lparr>sizeUsed := sizeUsed c - size_entry entry,
                   cache := map_delete key (cache c)\<rparr>))"

definition cache_get :: "int \<Rightarrow> string \<Rightarrow> 'a CacheManager \<Rightarrow> 'a option \<times> 'a CacheManager" where
  "cache_get now key c =
     (case map_of (cache c) key of
        None \<Rightarrow> (None, c)
      | Some entry \<Rightarrow>
          if now \<ge> expiresAt entry then (None, snd (cache_delete key c))
          else (Some (data entry),
                c\<lparr>cache := map_set key (entry\<lparr>hits := hits entry + 1\<rparr>) (cache c)\<rparr>))"

definition cache_has :: "int \<Rightarrow> string \<Rightarrow> 'a CacheManager \<Rightarrow> bool \<times> 'a CacheManager" where
  "cache_has now key c =
     (case map_of (cache c) key of
        None \<Rightarrow> (False, c)
      | Some entry \<Rightarrow>
          if now \<ge> expiresAt entry then (False, snd (cache_delete key c)) else (True, c))"

definition cache_clear :: "'a CacheManager \<Rightarrow> 'a CacheManager" where
  "cache_clear c = c\<lparr>cache := [], sizeUsed := 0\<rparr>"

text \<open>
  \<^verbatim>\<open>evictLRU\<close>: the score of an entry is its hits per second of age, the age in
  milliseconds and at least 1 ms: \<^verbatim>\<open>entry.hits / (age / 1000)\<close>, two divisions of
  doubles.
\<close>

definition score :: "int \<Rightarrow> 'a CacheEntry \<Rightarrow> rat" where
  "score now entry =
     (let age = max 1 (now - timestamp entry)
      in fdiv (of_nat (hits entry)) (fdiv (of_int age) 1000))"

text \<open>
  The loop of \<^verbatim>\<open>evictLRU\<close> calls \<^verbatim>\<open>Date.now()\<close> for every entry: \<open>clock i\<close> is the
  reading taken for the entry at position \<open>i\<close>, and \<open>readings\<close> pairs every entry
  with its reading.
\<close>

definition readings :: "(nat \<Rightarrow> int) \<Rightarrow> 'b list \<Rightarrow> (int \<times> 'b) list" where
  "readings clock es = zip (map clock [0..<length es]) es"

text \<open>
  The scan keeps \<^verbatim>\<open>lruKey\<close> (initially \<^verbatim>\<open>null\<close>) and \<^verbatim>\<open>minScore\<close> (initially
  \<^verbatim>\<open>Infinity\<close>, here \<open>None\<close>) and replaces them when an entry's score is strictly
  smaller.
\<close>

fun lru_scan ::
  "(int \<times> string \<times> 'a CacheEntry) list \<Rightarrow> string option \<times> rat option \<Rightarrow>
   string option \<times> rat option"
where
  "lru_scan [] acc = acc"
| "lru_scan ((now, key, entry) # es) (lruKey, minScore) =
     (if (case minScore of None \<Rightarrow> True | Some m \<Rightarrow> score now entry < m)
      then lru_scan es (Some key, Some (score now entry))
      else lru_scan es (lruKey, minScore))"

text \<open>\<^verbatim>\<open>if (lruKey) this.delete(lruKey)\<close>: \<^verbatim>\<open>null\<close> and the empty string are falsy.\<close>

definition evictLRU :: "(nat \<Rightarrow> int) \<Rightarrow> 'a CacheManager \<Rightarrow> 'a CacheManager" where
  "evictLRU clock c =
     (case fst (lru_scan (readings clock (cache c)) (None, None)) of
        None \<Rightarrow> c
      | Some lruKey \<Rightarrow> if lruKey = [] then c else snd (cache_delete lruKey c))"

text \<open>
  \<^verbatim>\<open>while (this.sizeUsed + size > this.maxSize && this.cache.size > 0) this.evictLRU()\<close>.
  \<open>clocks j\<close> is the clock of the \<open>j\<close>-th eviction. When \<^verbatim>\<open>evictLRU\<close> deletes
  nothing the loop does not end; the result \<open>None\<close> stands for a call that never
  returns.
\<close>

definition needs_room :: "int \<Rightarrow> 'a CacheManager \<Rightarrow> bool" where
  "needs_room sz c \<longleftrightarrow> sizeUsed c + sz > maxSize c \<and> cache c \<noteq> []"

partial_function (option) evict_loop ::
  "(nat \<Rightarrow> nat \<Rightarrow> int) \<Rightarrow> int \<Rightarrow> 'a CacheManager \<Rightarrow> 'a CacheManager option"
where
  "evict_loop clocks sz c =
     (if needs_room sz c then evict_loop (\<lambda>j. clocks (Suc j)) sz (evictLRU (clocks 0) c)
      else Some c)"

declare evict_loop.simps [code]

text \<open>
  The patterns of \<^verbatim>\<open>ttlByPattern\<close>, in the order of the source. \<^verbatim>\<open>.\<close> matches any
  character but a line terminator.
\<close>

definition startsWith :: "string \<Rightarrow> string \<Rightarrow> bool" where
  "startsWith p s \<longleftrightarrow> take (length p) s = p"

definition endsWith :: "string \<Rightarrow> string \<Rightarrow> bool" where
  "endsWith p s \<longleftrightarrow> length p \<le> length s \<and> drop (length s - length p) s = p"

definition line_terminator :: "char \<Rightarrow> bool" where
  "line_terminator ch \<longleftrightarrow> ch = CHR 0x0A \<or> ch = CHR 0x0D"

definition subreddit_pattern :: "string \<Rightarrow> string \<Rightarrow> bool" where
  "subreddit_pattern suffix key \<longleftrightarrow>
     startsWith ''subreddit:'' key \<and>
     (let rest = drop (length ''subreddit:'') key in
      endsWith suffix rest \<and>
      \<not> list_ex line_terminator (take (length rest - length suffix) rest))"

definition pattern_ttl :: "string \<Rightarrow> int option" where
  "pattern_ttl key =
     (if subreddit_pattern '':hot'' key then Some (5 * 60 * 1000)
      else if subreddit_pattern '':new'' key then Some (2 * 60 * 1000)
      else if subreddit_pattern '':top'' key then Some (30 * 60 * 1000)
      else if startsWith ''post:'' key then Some (10 * 60 * 1000)
      else if startsWith ''user:'' key then Some (15 * 60 * 1000)
      else if startsWith ''search:'' key then Some (10 * 60 * 1000)
      else None)"

definition resolve_ttl :: "string \<Rightarrow> int option \<Rightarrow> 'a CacheManager \<Rightarrow> int" where
  "resolve_ttl key customTTL c =
     (case customTTL of
        Some t \<Rightarrow> if t > 0 then t else (case pattern_ttl key of Some p \<Rightarrow> p | None \<Rightarrow> defaultTTL c)
      | None \<Rightarrow> (case pattern_ttl key of Some p \<Rightarrow> p | None \<Rightarrow> defaultTTL c))"

text \<open>
  \<^verbatim>\<open>set\<close>: \<open>None\<close> when the eviction loop does not end. \<open>clocks\<close> are the readings
  of the evictions, \<open>now\<close> the reading taken afterwards for the new entry.
\<close>

definition cache_set ::
  "('a \<Rightarrow> nat) \<Rightarrow> (nat \<Rightarrow> nat \<Rightarrow> int) \<Rightarrow> int \<Rightarrow> string \<Rightarrow> 'a \<Rightarrow> int option \<Rightarrow>
   'a CacheManager \<Rightarrow> 'a CacheManager option"
where
  "cache_set est clocks now key dat customTTL c =
     (let sz = int (est dat) in
      if sz > maxSize c then Some c
      else
        (case evict_loop clocks sz c of
           None \<Rightarrow> None
         | Some c1 \<Rightarrow>
             (let c2 = (if map_of (cache c1) key \<noteq> None then snd (cache_delete key c1) else c1);
                  ttl = resolve_ttl key customTTL c2;
                  entry = \<lparr>data = dat, timestamp = now, size_entry = sz, hits = 0,
                           expiresAt = now + ttl\<rparr>
              in Some (c2\<lparr>cache := map_set key entry (cache c2),
                          sizeUsed := sizeUsed c2 + sz\<rparr>))))"

text \<open>The periodic sweep: collect the expired keys, then delete each.\<close>

definition cache_cleanup :: "int \<Rightarrow> 'a CacheManager \<Rightarrow> 'a CacheManager" where
  "cache_cleanup now c =
     (let keysToDelete = map fst (filter (\<lambda>kv. now \<ge> expiresAt (snd kv)) (cache c))
      in fold (\<lambda>key c'. snd (cache_delete key c')) keysToDelete c)"

text \<open>Sequences of operations on one cache; a run is \<open>None\<close> when a call never returns.\<close>

datatype 'a cache_op =
    Set "nat \<Rightarrow> nat \<Rightarrow> int" int string 'a "int option"
  | Get int string
  | Has int string
  | Delete string
  | Evict "nat \<Rightarrow> int"
  | Cleanup int
  | Clear

fun cache_apply :: "('a \<Rightarrow> nat) \<Rightarrow> 'a cache_op \<Rightarrow> 'a CacheManager \<Rightarrow> 'a CacheManager option" where
  "cache_apply est (Set clocks now key dat customTTL) c =
     cache_set est clocks now key dat customTTL c"
| "cache_apply est (Get now key) c = Some (snd (cache_get now key c))"
| "cache_apply est (Has now key) c = Some (snd (cache_has now key c))"
| "cache_apply est (Delete key) c = Some (snd (cache_delete key c))"
| "cache_apply est (Evict clock) c = Some (evictLRU clock c)"
| "cache_apply est (Cleanup now) c = Some (cache_cleanup now c)"
| "cache_apply est Clear c = Some (cache_clear c)"

fun cache_run :: "('a \<Rightarrow> nat) \<Rightarrow> 'a cache_op list \<Rightarrow> 'a CacheManager \<Rightarrow> 'a CacheManager option" where
  "cache_run est [] c = Some c"
| "cache_run est (op # ops) c =
     (case cache_apply est op c of None \<Rightarrow> None | Some c' \<Rightarrow> cache_run est ops c')"

text \<open>The total size of the stored entries, and of those not yet expired at \<open>now\<close>.\<close>

definition stored_size :: "'a CacheManager \<Rightarrow> int" where
  "stored_size c = sum_list (map (\<lambda>kv. size_entry (snd kv)) (cache c))"

definition live_size :: "int \<Rightarrow> 'a CacheManager \<Rightarrow> int" where
  "live_size now c =
     sum_list (map (\<lambda>kv. size_entry (snd kv)) (filter (\<lambda>kv. expiresAt (snd kv) > now) (cache c)))"

definition cache_inv :: "'a CacheManager \<Rightarrow> bool" where
  "cache_inv c \<longleftrightarrow>
     distinct (map fst (cache c)) \<and> (\<forall>kv \<in> set (cache c). 0 \<le> size_entry (snd kv)) \<and>
     sizeUsed c = stored_size c"

text \<open>
  The score in the words of the specification, for comparison with \<open>score\<close>:
  \<open>hitCount / max(1, ageSeconds)\<close>, the age in whole seconds.
\<close>

definition spec_score :: "int \<Rightarrow> 'a CacheEntry \<Rightarrow> rat" where
  "spec_score now entry =
     of_nat (hits entry) / of_int (max 1 ((now - timestamp entry) div 1000))"

text \<open>
  The score of an entry at the reading taken for it, and the store after the first \<open>n\<close>
  evictions of the loop.
\<close>

definition timed_score :: "int \<times> string \<times> 'a CacheEntry \<Rightarrow> rat" where
  "timed_score x = score (fst x) (snd (snd x))"

fun evictions :: "(nat \<Rightarrow> nat \<Rightarrow> int) \<Rightarrow> nat \<Rightarrow> 'a CacheManager \<Rightarrow> 'a CacheManager" where
  "evictions clocks 0 c = c"
| "evictions clocks (Suc n) c = evictions (\<lambda>j. clocks (Suc j)) n (evictLRU (clocks 0) c)"

text \<open>What the eviction loop keeps, when it returns, and the invariant with the capacity bound.\<close>

definition loop_post :: "int \<Rightarrow> 'a CacheManager \<Rightarrow> 'a CacheManager \<Rightarrow> bool" where
  "loop_post sz c c' \<longleftrightarrow>
     (cache_inv c \<longrightarrow>
        cache_inv c' \<and> maxSize c' = maxSize c \<and> sizeUsed c' \<le> sizeUsed c \<and> \<not> needs_room sz c')"

definition cache_ok :: "'a CacheManager \<Rightarrow> bool" where
  "cache_ok c \<longleftrightarrow> cache_inv c \<and> sizeUsed c \<le> maxSize c \<and> 0 \<le> maxSize c"

section \<open>Cache: size accounting\<close>

subsection \<open>Association lists\<close>

lemma map_of_map_delete_same: "map_of (map_delete k m) k = None"
  by (induction m) (auto simp: map_delete_def)

lemma map_of_map_delete_other: "k' \<noteq> k \<Longrightarrow> map_of (map_delete k m) k' = map_of m k'"
  by (induction m) (auto simp: map_delete_def)

lemma keys_map_delete: "fst ` set (map_delete k m) = fst ` set m - {k}"
  by (auto simp: map_delete_def)

lemma distinct_map_delete: "distinct (map fst m) \<Longrightarrow> distinct (map fst (map_delete k m))"
  by (simp add: map_delete_def distinct_map_filter)

lemma map_delete_absent: "k \<notin> fst ` set m \<Longrightarrow> map_delete k m = m"
  by (induction m) (auto simp: map_delete_def)

lemma sum_map_delete:
  "distinct (map fst m) \<Longrightarrow> map_of m k = Some e \<Longrightarrow>
   sum_list (map (\<lambda>kv. f (snd kv)) (map_delete k m)) = sum_list (map (\<lambda>kv. f (snd kv)) m) - (f e :: int)"
proof (induction m)
  case Nil
  then show ?case by simp
next
  case (Cons kv m)
  show ?case
  proof (cases "fst kv = k")
    case True
    then have "k \<notin> fst ` set m" using Cons.prems(1) by auto
    then have "map_delete k m = m" by (rule map_delete_absent)
    moreover have "snd kv = e" using True Cons.prems(2) by (cases kv) simp
    ultimately show ?thesis using True by (simp add: map_delete_def)
  next
    case False
    then have "map_of m k = Some e" using Cons.prems(2) by (cases kv) (simp split: if_splits)
    then show ?thesis using False Cons by (simp add: map_delete_def)
  qed
qed

lemma map_delete_split:
  "distinct (map fst (pre @ (k, e) # post)) \<Longrightarrow> map_delete k (pre @ (k, e) # post) = pre @ post"
proof -
  assume d: "distinct (map fst (pre @ (k, e) # post))"
  then have "k \<notin> fst ` set pre" "k \<notin> fst ` set post" by auto
  then have "map_delete k pre = pre" "map_delete k post = post"
    by (simp_all add: map_delete_absent)
  then show ?thesis by (simp add: map_delete_def)
qed

lemma map_of_split:
  "distinct (map fst (pre @ (k, e) # post)) \<Longrightarrow> map_of (pre @ (k, e) # post) k = Some e"
  by (induction pre) auto

lemma map_set_present:
  "map_of m k = Some e \<Longrightarrow>
   map fst (map_set k e' m) = map fst m \<and>
   sum_list (map (\<lambda>kv. f (snd kv)) (map_set k e' m))
     = sum_list (map (\<lambda>kv. f (snd kv)) m) - f e + (f e' :: int) \<and>
   set (map_set k e' m) \<subseteq> insert (k, e') (set m)"
  by (induction m) (auto split: if_splits)

lemma map_set_absent: "map_of m k = None \<Longrightarrow> map_set k v m = m @ [(k, v)]"
  by (induction m) (auto split: if_splits)

lemma map_of_map_set_same: "map_of (map_set k v m) k = Some v"
  by (induction m) auto

subsection \<open>The size counter\<close>

lemma cache_delete_inv:
  assumes "cache_inv c"
  shows "cache_inv (snd (cache_delete key c)) \<and> maxSize (snd (cache_delete key c)) = maxSize c \<and>
         sizeUsed (snd (cache_delete key c)) \<le> sizeUsed c \<and>
         length (cache (snd (cache_delete key c))) \<le> length (cache c)"
proof (cases "map_of (cache c) key")
  case None
  then show ?thesis using assms by (simp add: cache_delete_def)
next
  case (Some e)
  have d: "distinct (map fst (cache c))" using assms by (simp add: cache_inv_def)
  have "(key, e) \<in> set (cache c)" using Some by (rule map_of_SomeD)
  then have nonneg: "0 \<le> size_entry e" using assms by (fastforce simp: cache_inv_def)
  have "stored_size (c\<lparr>sizeUsed := sizeUsed c - size_entry e, cache := map_delete key (cache c)\<rparr>)
        = stored_size c - size_entry e"
    unfolding stored_size_def using sum_map_delete [OF d Some, of size_entry] by simp
  moreover have "\<forall>kv \<in> set (map_delete key (cache c)). 0 \<le> size_entry (snd kv)"
    using assms by (auto simp: cache_inv_def map_delete_def)
  moreover have "length (map_delete key (cache c)) \<le> length (cache c)"
    by (simp add: map_delete_def)
  ultimately show ?thesis
    using assms Some nonneg d by (simp add: cache_delete_def cache_inv_def distinct_map_delete)
qed

lemma cache_get_inv:
  assumes "cache_inv c"
  shows "cache_inv (snd (cache_get now key c)) \<and> maxSize (snd (cache_get now key c)) = maxSize c \<and>
         sizeUsed (snd (cache_get now key c)) \<le> sizeUsed c"
proof (cases "map_of (cache c) key")
  case None
  then show ?thesis using assms by (simp add: cache_get_def)
next
  case (Some e)
  show ?thesis
  proof (cases "now \<ge> expiresAt e")
    case True
    then show ?thesis using Some cache_delete_inv [OF assms, of key] by (simp add: cache_get_def)
  next
    case False
    note ms = map_set_present [OF Some, of "e\<lparr>hits := hits e + 1\<rparr>" size_entry]
    have "(key, e) \<in> set (cache c)" using Some by (rule map_of_SomeD)
    then have "0 \<le> size_entry e" using assms by (fastforce simp: cache_inv_def)
    then have "\<forall>kv \<in> set (map_set key (e\<lparr>hits := hits e + 1\<rparr>) (cache c)). 0 \<le> size_entry (snd kv)"
      using ms assms by (fastforce simp: cache_inv_def)
    then show ?thesis
      using False Some ms assms by (simp add: cache_get_def cache_inv_def stored_size_def)
  qed
qed

lemma cache_has_inv:
  assumes "cache_inv c"
  shows "cache_inv (snd (cache_has now key c)) \<and> maxSize (snd (cache_has now key c)) = maxSize c \<and>
         sizeUsed (snd (cache_has now key c)) \<le> sizeUsed c"
  using assms cache_delete_inv [OF assms, of key]
  by (simp add: cache_has_def split: option.splits)

lemma evictLRU_inv:
  assumes "cache_inv c"
  shows "cache_inv (evictLRU clock c) \<and> maxSize (evictLRU clock c) = maxSize c \<and>
         sizeUsed (evictLRU clock c) \<le> sizeUsed c"
  using assms cache_delete_inv [OF assms]
  by (simp add: evictLRU_def split: option.splits)

lemma cache_cleanup_fold_inv:
  "cache_inv c \<Longrightarrow>
   cache_inv (fold (\<lambda>key c'. snd (cache_delete key c')) ks c) \<and>
   maxSize (fold (\<lambda>key c'. snd (cache_delete key c')) ks c) = maxSize c \<and>
   sizeUsed (fold (\<lambda>key c'. snd (cache_delete key c')) ks c) \<le> sizeUsed c"
proof (induction ks arbitrary: c)
  case Nil
  then show ?case by simp
next
  case (Cons k ks)
  from cache_delete_inv [OF Cons.prems, of k] Cons.IH [of "snd (cache_delete k c)"]
  show ?case by fastforce
qed

lemma cache_cleanup_inv:
  "cache_inv c \<Longrightarrow>
   cache_inv (cache_cleanup now c) \<and> maxSize (cache_cleanup now c) = maxSize c \<and>
   sizeUsed (cache_cleanup now c) \<le> sizeUsed c"
  unfolding cache_cleanup_def Let_def by (rule cache_cleanup_fold_inv)

lemma cache_clear_inv:
  "cache_inv (cache_clear c) \<and> maxSize (cache_clear c) = maxSize c \<and> sizeUsed (cache_clear c) = 0"
  by (simp add: cache_clear_def cache_inv_def stored_size_def)

lemma evict_loop_post:
  assumes "evict_loop clocks sz c = Some c'"
  shows "loop_post sz c c'"
proof (rule evict_loop.raw_induct [where P = "\<lambda>clocks sz c c'. loop_post sz c c'", OF _ assms])
  fix loop :: "(nat \<Rightarrow> nat \<Rightarrow> int) \<Rightarrow> int \<Rightarrow> 'a CacheManager \<Rightarrow> 'a CacheManager option"
  fix n s d y
  assume IH: "\<And>n s d y. loop n s d = Some y \<Longrightarrow> loop_post s d y"
    and body: "(if needs_room s d then loop (\<lambda>j. n (Suc j)) s (evictLRU (n 0) d) else Some d) = Some y"
  show "loop_post s d y"
  proof (cases "needs_room s d")
    case True
    then have "loop (\<lambda>j. n (Suc j)) s (evictLRU (n 0) d) = Some y" using body by simp
    then have "loop_post s (evictLRU (n 0) d) y" by (rule IH)
    then show ?thesis using evictLRU_inv [of d "n 0"] by (auto simp: loop_post_def)
  next
    case False
    then show ?thesis using body by (simp add: loop_post_def)
  qed
qed

lemma evict_loop_inv:
  assumes "evict_loop clocks sz c = Some c'" "cache_inv c"
  shows "cache_inv c' \<and> maxSize c' = maxSize c \<and> sizeUsed c' \<le> sizeUsed c \<and> \<not> needs_room sz c'"
  using evict_loop_post [OF assms(1)] assms(2) by (simp add: loop_post_def)

lemma cache_set_inv:
  assumes "cache_set est clocks now key dat customTTL c = Some c'" "cache_inv c"
    "sizeUsed c \<le> maxSize c"
  shows "cache_inv c' \<and> maxSize c' = maxSize c \<and> sizeUsed c' \<le> maxSize c'"
proof (cases "int (est dat) > maxSize c")
  case True
  then show ?thesis using assms by (simp add: cache_set_def)
next
  case False
  then obtain c1 where loop: "evict_loop clocks (int (est dat)) c = Some c1"
    using assms(1) by (auto simp: cache_set_def Let_def split: option.splits)
  note c1 = evict_loop_inv [OF loop assms(2)]
  define c2 where "c2 = (if map_of (cache c1) key \<noteq> None then snd (cache_delete key c1) else c1)"
  have c2: "cache_inv c2" "maxSize c2 = maxSize c" "sizeUsed c2 \<le> sizeUsed c1"
    using c1 cache_delete_inv [of c1 key] by (auto simp: c2_def)
  have absent: "map_of (cache c2) key = None"
    by (auto simp: c2_def cache_delete_def map_of_map_delete_same)
  define entry where "entry = \<lparr>data = dat, timestamp = now, size_entry = int (est dat), hits = 0,
                           expiresAt = now + resolve_ttl key customTTL c2\<rparr>"
  have c': "c' = c2\<lparr>cache := map_set key entry (cache c2), sizeUsed := sizeUsed c2 + int (est dat)\<rparr>"
    using assms(1) False loop by (simp add: cache_set_def Let_def c2_def entry_def)
  have "map_set key entry (cache c2) = cache c2 @ [(key, entry)]"
    using absent by (rule map_set_absent)
  then have app: "c' = c2\<lparr>cache := cache c2 @ [(key, entry)], sizeUsed := sizeUsed c2 + int (est dat)\<rparr>"
    using c' by simp
  have "key \<notin> fst ` set (cache c2)"
    using absent by (simp add: map_of_eq_None_iff)
  then have inv: "cache_inv c'"
    using c2(1) by (auto simp: app cache_inv_def stored_size_def entry_def)
  have room: "sizeUsed c1 + int (est dat) \<le> maxSize c"
  proof (cases "cache c1 = []")
    case True
    then have "sizeUsed c1 = 0" using c1 by (simp add: cache_inv_def stored_size_def)
    then show ?thesis using False by simp
  next
    case False
    then show ?thesis using c1 by (simp add: needs_room_def)
  qed
  show ?thesis using inv c2 room by (simp add: app)
qed

lemma cache_apply_ok:
  assumes "cache_apply est op c = Some c'" "cache_ok c"
  shows "cache_ok c' \<and> maxSize c' = maxSize c"
proof (cases op)
  case (Set clocks now key dat customTTL)
  then show ?thesis using assms cache_set_inv [of est clocks now key dat customTTL c c']
    by (simp add: cache_ok_def)
next
  case (Get now key)
  then show ?thesis using assms cache_get_inv [of c now key] by (auto simp: cache_ok_def)
next
  case (Has now key)
  then show ?thesis using assms cache_has_inv [of c now key] by (auto simp: cache_ok_def)
next
  case (Delete key)
  then show ?thesis using assms cache_delete_inv [of c key] by (auto simp: cache_ok_def)
next
  case (Evict clock)
  then show ?thesis using assms evictLRU_inv [of c clock] by (auto simp: cache_ok_def)
next
  case (Cleanup now)
  then show ?thesis using assms cache_cleanup_inv [of c now] by (auto simp: cache_ok_def)
next
  case Clear
  then show ?thesis using assms cache_clear_inv [of c] by (auto simp: cache_ok_def)
qed

lemma cache_run_ok:
  "cache_run est ops c = Some c' \<Longrightarrow> cache_ok c \<Longrightarrow> cache_ok c' \<and> maxSize c' = maxSize c"
proof (induction ops arbitrary: c)
  case Nil
  then show ?case by simp
next
  case (Cons op ops)
  then obtain c1 where c1: "cache_apply est op c = Some c1" "cache_run est ops c1 = Some c'"
    by (auto split: option.splits)
  from cache_apply_ok [OF c1(1) Cons.prems(2)] Cons.IH [OF c1(2)] show ?case by simp
qed


section \<open>Cache: the eviction scan and loop\<close>

lemma readings_snd: "map snd (readings clock es) = es"
  by (simp add: readings_def)

lemma readings_Nil: "readings clock es = [] \<longleftrightarrow> es = []"
  by (simp add: readings_def)

lemma lru_scan_Some:
  "lru_scan es (lk, Some m) = (lk', ms') \<Longrightarrow>
    (lk' = lk \<and> ms' = Some m \<and> (\<forall>x\<in>set es. m \<le> timed_score x)) \<or>
    (\<exists>pre now k e post. es = pre @ (now, k, e) # post \<and> lk' = Some k \<and>
       ms' = Some (score now e) \<and> score now e < m \<and>
       (\<forall>x\<in>set pre. score now e < timed_score x) \<and>
       (\<forall>x\<in>set post. score now e \<le> timed_score x))"
proof (induction es arbitrary: lk m)
  case Nil
  then show ?case by simp
next
  case (Cons x es)
  obtain t0 k0 e0 where x: "x = (t0, k0, e0)" by (cases x)
  have tx: "timed_score x = score t0 e0" by (simp add: x timed_score_def)
  show ?case
  proof (cases "score t0 e0 < m")
    case True
    then have "lru_scan es (Some k0, Some (score t0 e0)) = (lk', ms')"
      using Cons.prems x by simp
    from Cons.IH [OF this] show ?thesis
    proof
      assume "lk' = Some k0 \<and> ms' = Some (score t0 e0) \<and> (\<forall>y\<in>set es. score t0 e0 \<le> timed_score y)"
      then have "x # es = [] @ (t0, k0, e0) # es \<and> lk' = Some k0 \<and> ms' = Some (score t0 e0) \<and>
         score t0 e0 < m \<and> (\<forall>y\<in>set []. score t0 e0 < timed_score y) \<and>
         (\<forall>y\<in>set es. score t0 e0 \<le> timed_score y)"
        using True x by simp
      then show ?thesis by blast
    next
      assume "\<exists>pre now k e post. es = pre @ (now, k, e) # post \<and> lk' = Some k \<and>
       ms' = Some (score now e) \<and> score now e < score t0 e0 \<and>
       (\<forall>y\<in>set pre. score now e < timed_score y) \<and>
       (\<forall>y\<in>set post. score now e \<le> timed_score y)"
      then obtain pre now k e post where *: "es = pre @ (now, k, e) # post" "lk' = Some k"
        "ms' = Some (score now e)" "score now e < score t0 e0"
        "\<forall>y\<in>set pre. score now e < timed_score y"
        "\<forall>y\<in>set post. score now e \<le> timed_score y" by blast
      then have "x # es = (x # pre) @ (now, k, e) # post \<and> lk' = Some k \<and>
         ms' = Some (score now e) \<and> score now e < m \<and>
         (\<forall>y\<in>set (x # pre). score now e < timed_score y) \<and>
         (\<forall>y\<in>set post. score now e \<le> timed_score y)"
        using True tx by simp
      then show ?thesis by blast
    qed
  next
    case False
    then have "lru_scan es (lk, Some m) = (lk', ms')"
      using Cons.prems x by simp
    from Cons.IH [OF this] show ?thesis
    proof
      assume "lk' = lk \<and> ms' = Some m \<and> (\<forall>y\<in>set es. m \<le> timed_score y)"
      then show ?thesis using False tx by simp
    next
      assume "\<exists>pre now k e post. es = pre @ (now, k, e) # post \<and> lk' = Some k \<and>
       ms' = Some (score now e) \<and> score now e < m \<and>
       (\<forall>y\<in>set pre. score now e < timed_score y) \<and>
       (\<forall>y\<in>set post. score now e \<le> timed_score y)"
      then obtain pre now k e post where *: "es = pre @ (now, k, e) # post" "lk' = Some k"
        "ms' = Some (score now e)" "score now e < m"
        "\<forall>y\<in>set pre. score now e < timed_score y"
        "\<forall>y\<in>set post. score now e \<le> timed_score y" by blast
      then have "x # es = (x # pre) @ (now, k, e) # post \<and> lk' = Some k \<and>
         ms' = Some (score now e) \<and> score now e < m \<and>
         (\<forall>y\<in>set (x # pre). score now e < timed_score y) \<and>
         (\<forall>y\<in>set post. score now e \<le> timed_score y)"
        using False tx by simp
      then show ?thesis by blast
    qed
  qed
qed

lemma lru_scan_first_min:
  assumes "es \<noteq> []"
  shows "\<exists>pre now k e post. es = pre @ (now, k, e) # post \<and>
           lru_scan es (None, None) = (Some k, Some (score now e)) \<and>
           (\<forall>x\<in>set pre. score now e < timed_score x) \<and>
           (\<forall>x\<in>set post. score now e \<le> timed_score x)"
proof -
  obtain t0 k0 e0 es' where es: "es = (t0, k0, e0) # es'" using assms by (cases es) auto
  have tx: "timed_score (t0, k0, e0) = score t0 e0" by (simp add: timed_score_def)
  obtain lk' ms' where r: "lru_scan es' (Some k0, Some (score t0 e0)) = (lk', ms')"
    by (cases "lru_scan es' (Some k0, Some (score t0 e0))")
  then have full: "lru_scan es (None, None) = (lk', ms')" using es by simp
  from lru_scan_Some [OF r] show ?thesis
  proof
    assume "lk' = Some k0 \<and> ms' = Some (score t0 e0) \<and> (\<forall>y\<in>set es'. score t0 e0 \<le> timed_score y)"
    then have "es = [] @ (t0, k0, e0) # es' \<and>
           lru_scan es (None, None) = (Some k0, Some (score t0 e0)) \<and>
           (\<forall>y\<in>set []. score t0 e0 < timed_score y) \<and>
           (\<forall>y\<in>set es'. score t0 e0 \<le> timed_score y)"
      using es full by simp
    then show ?thesis by blast
  next
    assume "\<exists>pre now k e post. es' = pre @ (now, k, e) # post \<and> lk' = Some k \<and>
       ms' = Some (score now e) \<and> score now e < score t0 e0 \<and>
       (\<forall>y\<in>set pre. score now e < timed_score y) \<and>
       (\<forall>y\<in>set post. score now e \<le> timed_score y)"
    then obtain pre now k e post where *: "es' = pre @ (now, k, e) # post" "lk' = Some k"
        "ms' = Some (score now e)" "score now e < score t0 e0"
        "\<forall>y\<in>set pre. score now e < timed_score y"
        "\<forall>y\<in>set post. score now e \<le> timed_score y" by blast
    then have "es = ((t0, k0, e0) # pre) @ (now, k, e) # post \<and>
           lru_scan es (None, None) = (Some k, Some (score now e)) \<and>
           (\<forall>y\<in>set ((t0, k0, e0) # pre). score now e < timed_score y) \<and>
           (\<forall>y\<in>set post. score now e \<le> timed_score y)"
      using es full tx by simp
    then show ?thesis by blast
  qed
qed

lemma evictLRU_first_min:
  assumes d: "distinct (map fst (cache c))" and ne: "cache c \<noteq> []"
    and nk: "[] \<notin> fst ` set (cache c)"
  shows "\<exists>pre now k e post. readings clock (cache c) = pre @ (now, k, e) # post \<and>
           (\<forall>x\<in>set pre. score now e < timed_score x) \<and>
           (\<forall>x\<in>set post. score now e \<le> timed_score x) \<and>
           evictLRU clock c
             = c\<lparr>sizeUsed := sizeUsed c - size_entry e, cache := map snd pre @ map snd post\<rparr>"
proof -
  have "readings clock (cache c) \<noteq> []" using ne by (simp add: readings_Nil)
  from lru_scan_first_min [OF this] obtain pre now k e post where
    *: "readings clock (cache c) = pre @ (now, k, e) # post"
       "lru_scan (readings clock (cache c)) (None, None) = (Some k, Some (score now e))"
       "\<forall>x\<in>set pre. score now e < timed_score x"
       "\<forall>x\<in>set post. score now e \<le> timed_score x" by blast
  have "map snd (readings clock (cache c)) = map snd pre @ (k, e) # map snd post"
    unfolding *(1) by simp
  then have cc: "cache c = map snd pre @ (k, e) # map snd post" by (simp add: readings_snd)
  have k: "k \<noteq> []" using nk cc by force
  have m: "map_of (cache c) k = Some e" using d unfolding cc by (rule map_of_split)
  have del: "map_delete k (cache c) = map snd pre @ map snd post"
    using d unfolding cc by (rule map_delete_split)
  have "evictLRU clock c
      = c\<lparr>sizeUsed := sizeUsed c - size_entry e, cache := map snd pre @ map snd post\<rparr>"
    using *(2) k m del by (simp add: evictLRU_def cache_delete_def)
  then show ?thesis using *(1,3,4) by blast
qed

lemma evictLRU_shrinks:
  assumes ne: "cache c \<noteq> []" and nk: "[] \<notin> fst ` set (cache c)"
  shows "length (cache (evictLRU clock c)) < length (cache c) \<and>
         fst ` set (cache (evictLRU clock c)) \<subseteq> fst ` set (cache c)"
proof -
  have "readings clock (cache c) \<noteq> []" using ne by (simp add: readings_Nil)
  from lru_scan_first_min [OF this] obtain pre now k e post where
    *: "readings clock (cache c) = pre @ (now, k, e) # post"
       "lru_scan (readings clock (cache c)) (None, None) = (Some k, Some (score now e))" by blast
  have "map snd (readings clock (cache c)) = map snd pre @ (k, e) # map snd post"
    unfolding *(1) by simp
  then have cc: "cache c = map snd pre @ (k, e) # map snd post" by (simp add: readings_snd)
  have k: "k \<noteq> []" using nk cc by force
  have "k \<in> fst ` set (cache c)" using cc by force
  then obtain e' where m: "map_of (cache c) k = Some e'"
    by (metis map_of_eq_None_iff not_Some_eq)
  have ev: "cache (evictLRU clock c) = map_delete k (cache c)"
    using *(2) k m by (simp add: evictLRU_def cache_delete_def)
  have "length (map_delete k (cache c)) < length (cache c)"
    unfolding cc map_delete_def
    by (simp add: less_Suc_eq_le add_le_mono)
  then show ?thesis using ev by (auto simp: map_delete_def)
qed

lemma evict_loop_iterates:
  "[] \<notin> fst ` set (cache c) \<Longrightarrow>
   \<exists>n. evict_loop clocks sz c = Some (evictions clocks n c) \<and>
       \<not> needs_room sz (evictions clocks n c) \<and>
       (\<forall>i<n. needs_room sz (evictions clocks i c))"
proof (induction "length (cache c)" arbitrary: c clocks rule: less_induct)
  case less
  show ?case
  proof (cases "needs_room sz c")
    case False
    then have "evict_loop clocks sz c = Some (evictions clocks 0 c) \<and>
       \<not> needs_room sz (evictions clocks 0 c) \<and>
       (\<forall>i<0. needs_room sz (evictions clocks i c))"
      by (simp add: evict_loop.simps)
    then show ?thesis by blast
  next
    case True
    then have ne: "cache c \<noteq> []" by (simp add: needs_room_def)
    define c1 where "c1 = evictLRU (clocks 0) c"
    define later where "later = (\<lambda>j. clocks (Suc j))"
    note sh = evictLRU_shrinks [OF ne less.prems, of "clocks 0"]
    then have "[] \<notin> fst ` set (cache c1)" using less.prems unfolding c1_def by blast
    moreover have "length (cache c1) < length (cache c)" using sh by (simp add: c1_def)
    ultimately obtain n where
      n: "evict_loop later sz c1 = Some (evictions later n c1)"
         "\<not> needs_room sz (evictions later n c1)"
         "\<forall>i<n. needs_room sz (evictions later i c1)"
      using less.hyps [of c1 later] by blast
    have sw: "evictions later i c1 = evictions clocks (Suc i) c" for i
      by (simp add: later_def c1_def)
    have "evict_loop clocks sz c = evict_loop later sz c1"
      using True by (subst evict_loop.simps) (simp add: later_def c1_def)
    then have "evict_loop clocks sz c = Some (evictions clocks (Suc n) c)"
      using n(1) unfolding sw by simp
    moreover have "\<not> needs_room sz (evictions clocks (Suc n) c)"
      using n(2) unfolding sw .
    moreover have "needs_room sz (evictions clocks i c)" if "i < Suc n" for i
    proof (cases i)
      case 0
      then show ?thesis using True by simp
    next
      case (Suc j)
      then have "j < n" using that by simp
      then show ?thesis using n(3) Suc unfolding sw by blast
    qed
    ultimately show ?thesis by blast
  qed
qed

section \<open>Cache: the claims\<close>

text \<open>
  Claim C4, as amended. After any sequence of \<^verbatim>\<open>set\<close>, \<^verbatim>\<open>get\<close>, \<^verbatim>\<open>has\<close>,
  \<^verbatim>\<open>delete\<close>, eviction, sweep and \<^verbatim>\<open>clear\<close> operations that returns, on a cache
  constructed with a capacity that is not negative, \<^verbatim>\<open>sizeUsed\<close> equals the sum of the
  sizes of all stored entries (expired entries included, until an access or the sweep
  removes them), and \<^verbatim>\<open>sizeUsed\<close> does not exceed \<^verbatim>\<open>maxSize\<close>.
\<close>

theorem cache_size_accounting:
  assumes "0 \<le> maxSize (newCacheManager m t :: 'a CacheManager)"
    and "cache_run est ops (newCacheManager m t) = Some (c :: 'a CacheManager)"
  shows "sizeUsed c = stored_size c \<and> sizeUsed c \<le> maxSize c \<and>
         maxSize c = maxSize (newCacheManager m t :: 'a CacheManager)"
proof -
  have "cache_ok (newCacheManager m t :: 'a CacheManager)"
    using assms(1) by (simp add: cache_ok_def cache_inv_def stored_size_def newCacheManager_def)
  from cache_run_ok [OF assms(2) this] show ?thesis
    by (simp add: cache_ok_def cache_inv_def)
qed

theorem cache_size_accounting_witness:
  "cache_run (\<lambda>s. 2 * length s)
     [Set (\<lambda>j i. 0) 0 ''a'' ''12345'' (Some 1), Get 5 ''a'',
      Set (\<lambda>j i. 10) 10 ''b'' ''123'' (Some 100), Delete ''b'']
     (newCacheManager (Some 100) None)
   = Some \<lparr>cache = [], sizeUsed = 0, maxSize = 100, defaultTTL = 300000\<rparr> \<and>
   stored_size \<lparr>cache = ([] :: (string \<times> string CacheEntry) list), sizeUsed = 0, maxSize = 100,
      defaultTTL = 300000\<rparr> = 0"
proof -
  have h1: "0 \<le> maxSize (newCacheManager (Some 100) None :: string CacheManager)"
    by (simp add: newCacheManager_def)
  have h2: "cache_run (\<lambda>s. 2 * length s)
     [Set (\<lambda>j i. 0) 0 ''a'' ''12345'' (Some 1), Get 5 ''a'',
      Set (\<lambda>j i. 10) 10 ''b'' ''123'' (Some 100), Delete ''b'']
     (newCacheManager (Some 100) None)
   = Some \<lparr>cache = [], sizeUsed = 0, maxSize = 100, defaultTTL = 300000\<rparr>"
    by (simp add: newCacheManager_def cache_set_def evict_loop.simps needs_room_def
      resolve_ttl_def cache_get_def cache_delete_def map_delete_def Let_def)
  from cache_size_accounting [OF h1 h2] h2 show ?thesis by simp
qed

text \<open>
  The claim as stated (the counter is the sum over the entries with \<open>expiresAt > now\<close>)
  fails: at time 10, right after the second \<^verbatim>\<open>set\<close>, entry \<open>a\<close> expired at time 1
  and is still stored and counted: the counter is 16, the unexpired entries sum to 6.
\<close>

theorem cache_size_accounting_counterexample:
  "cache_run (\<lambda>s. 2 * length s)
     [Set (\<lambda>j i. 0) 0 ''a'' ''12345'' (Some 1), Set (\<lambda>j i. 10) 10 ''b'' ''123'' (Some 100)]
     (newCacheManager (Some 100) None)
   = Some \<lparr>cache =
       [(''a'', \<lparr>data = ''12345'', timestamp = 0, size_entry = 10, hits = 0, expiresAt = 1\<rparr>),
        (''b'', \<lparr>data = ''123'', timestamp = 10, size_entry = 6, hits = 0, expiresAt = 110\<rparr>)],
       sizeUsed = 16, maxSize = 100, defaultTTL = 300000\<rparr> \<and>
   live_size 10 \<lparr>cache =
       [(''a'', \<lparr>data = ''12345'', timestamp = 0, size_entry = 10, hits = 0, expiresAt = 1\<rparr>),
        (''b'', \<lparr>data = ''123'', timestamp = 10, size_entry = 6, hits = 0, expiresAt = 110\<rparr>)],
       sizeUsed = 16, maxSize = 100, defaultTTL = 300000\<rparr> = 6"
  by (simp add: newCacheManager_def cache_set_def evict_loop.simps needs_room_def
      resolve_ttl_def live_size_def Let_def)

text \<open>
  Claim C3, as amended. In a store with distinct keys, none of them the empty string,
  one eviction step removes the first entry in insertion order whose score is minimal
  among all stored entries, where the score of an entry is the double
  \<^verbatim>\<open>hits / (age / 1000)\<close>, hits per second of age, with
  \<open>age = max(1, now - timestamp)\<close> in milliseconds (not whole seconds, and at least one
  millisecond, not one second) and \<open>now\<close> the clock reading taken for that entry;
  every entry before the evicted one has a strictly greater score. The loop of
  \<^verbatim>\<open>set\<close> returns after some number \<open>n\<close> of eviction steps: before each of them
  there was no room and the store was not empty, and after the last there is room or the
  store is empty.
\<close>

theorem eviction_removes_first_min_score:
  assumes "distinct (map fst (cache c))" and "[] \<notin> fst ` set (cache c)"
  shows "(cache c \<noteq> [] \<longrightarrow>
           (\<exists>pre now k e post. readings clock (cache c) = pre @ (now, k, e) # post \<and>
              (\<forall>x\<in>set pre. score now e < timed_score x) \<and>
              (\<forall>x\<in>set post. score now e \<le> timed_score x) \<and>
              evictLRU clock c
                = c\<lparr>sizeUsed := sizeUsed c - size_entry e,
                    cache := map snd pre @ map snd post\<rparr>)) \<and>
         (\<exists>n. evict_loop clocks sz c = Some (evictions clocks n c) \<and>
              \<not> needs_room sz (evictions clocks n c) \<and>
              (\<forall>i<n. needs_room sz (evictions clocks i c)))"
  using evictLRU_first_min [OF assms(1) _ assms(2)] evict_loop_iterates [OF assms(2)]
  by blast

text \<open>
  Two runs. In the first the clock moves during the scan. In the second \<open>a\<close> has 3
  hits at 9 ms of age and \<open>b\<close> has 1 hit at 3 ms: the exact quotients are equal, the
  doubles are 333.33333333333337 and 333.3333333333333, and \<open>b\<close> is evicted.
\<close>

theorem eviction_removes_first_min_score_witness:
  "evictLRU (\<lambda>i. 2000 + int i)
     \<lparr>cache =
        [(''a'', \<lparr>data = ''x'', timestamp = 1500, size_entry = 40, hits = 1, expiresAt = 9000\<rparr>),
         (''b'', \<lparr>data = ''y'', timestamp = 0, size_entry = 40, hits = 3, expiresAt = 9000\<rparr>)],
      sizeUsed = 80, maxSize = 100, defaultTTL = 1000\<rparr>
   = \<lparr>cache =
        [(''a'', \<lparr>data = ''x'', timestamp = 1500, size_entry = 40, hits = 1, expiresAt = 9000\<rparr>)],
      sizeUsed = 40, maxSize = 100, defaultTTL = 1000\<rparr> \<and>
   evictLRU (\<lambda>i. 9)
     \<lparr>cache =
        [(''a'', \<lparr>data = ''x'', timestamp = 0, size_entry = 40, hits = 3, expiresAt = 9000\<rparr>),
         (''b'', \<lparr>data = ''y'', timestamp = 6, size_entry = 40, hits = 1, expiresAt = 9000\<rparr>)],
      sizeUsed = 80, maxSize = 100, defaultTTL = 1000\<rparr>
   = \<lparr>cache =
        [(''a'', \<lparr>data = ''x'', timestamp = 0, size_entry = 40, hits = 3, expiresAt = 9000\<rparr>)],
      sizeUsed = 40, maxSize = 100, defaultTTL = 1000\<rparr> \<and>
   score 9 \<lparr>data = ''y'', timestamp = 6, size_entry = 40, hits = 1, expiresAt = 9000\<rparr>
     < score 9 \<lparr>data = ''x'', timestamp = 0, size_entry = 40, hits = 3, expiresAt = 9000\<rparr> \<and>
   (\<exists>n. evict_loop (\<lambda>j i. 2000 + int i) 40
       \<lparr>cache =
        [(''a'', \<lparr>data = ''x'', timestamp = 1500, size_entry = 40, hits = 1, expiresAt = 9000\<rparr>),
         (''b'', \<lparr>data = ''y'', timestamp = 0, size_entry = 40, hits = 3, expiresAt = 9000\<rparr>)],
        sizeUsed = 80, maxSize = 100, defaultTTL = 1000\<rparr>
     = Some (evictions (\<lambda>j i. 2000 + int i) n
       \<lparr>cache =
        [(''a'', \<lparr>data = ''x'', timestamp = 1500, size_entry = 40, hits = 1, expiresAt = 9000\<rparr>),
         (''b'', \<lparr>data = ''y'', timestamp = 0, size_entry = 40, hits = 3, expiresAt = 9000\<rparr>)],
        sizeUsed = 80, maxSize = 100, defaultTTL = 1000\<rparr>))"
proof -
  let ?a = "\<lparr>data = ''x'', timestamp = 1500, size_entry = 40, hits = 1, expiresAt = (9000::int)\<rparr>"
  let ?b = "\<lparr>data = ''y'', timestamp = 0, size_entry = 40, hits = 3, expiresAt = (9000::int)\<rparr>"
  let ?a' = "\<lparr>data = ''x'', timestamp = 0, size_entry = 40, hits = 3, expiresAt = (9000::int)\<rparr>"
  let ?b' = "\<lparr>data = ''y'', timestamp = 6, size_entry = 40, hits = 1, expiresAt = (9000::int)\<rparr>"
  let ?c = "\<lparr>cache = [(''a'', ?a), (''b'', ?b)], sizeUsed = 80, maxSize = 100, defaultTTL = 1000\<rparr>"
  let ?c' = "\<lparr>cache = [(''a'', ?a'), (''b'', ?b')], sizeUsed = 80, maxSize = 100,
             defaultTTL = 1000\<rparr>"
  have h1: "distinct (map fst (cache ?c))" by simp
  have h2: "[] \<notin> fst ` set (cache ?c)" by simp
  have sc: "score 2000 ?a = 2" "score 2001 ?b < 2" "score 9 ?b' < score 9 ?a'"
    by code_simp+
  have rd: "readings clock [x, y] = [(clock 0, x), (clock 1, y)]" for clock :: "nat \<Rightarrow> int"
    and x y :: "string \<times> string CacheEntry"
    by (simp add: readings_def upt_rec)
  have ev: "evictLRU (\<lambda>i. 2000 + int i) ?c
      = \<lparr>cache = [(''a'', ?a)], sizeUsed = 40, maxSize = 100, defaultTTL = 1000\<rparr>"
    using sc(1,2) by (simp add: evictLRU_def rd cache_delete_def map_delete_def)
  have ev': "evictLRU (\<lambda>i. 9) ?c'
      = \<lparr>cache = [(''a'', ?a')], sizeUsed = 40, maxSize = 100, defaultTTL = 1000\<rparr>"
    using sc(3) by (simp add: evictLRU_def rd cache_delete_def map_delete_def)
  from eviction_removes_first_min_score [OF h1 h2, of "\<lambda>i. 2000 + int i" "\<lambda>j i. 2000 + int i" 40]
    ev ev' sc(3)
  show ?thesis by blast
qed

text \<open>
  The claim as stated fails: with the score \<open>hitCount / max(1, ageSeconds)\<close> in whole
  seconds, entry \<open>a\<close> (one hit, 500 ms old) has the minimal score 1, below the 3/2 of
  entry \<open>b\<close> (three hits, 2 s old); the code scores \<open>a\<close> at 2 hits per second and
  evicts \<open>b\<close>.
\<close>

theorem eviction_spec_score_counterexample:
  "evictLRU (\<lambda>i. 2000)
     \<lparr>cache =
        [(''a'', \<lparr>data = ''x'', timestamp = 1500, size_entry = 40, hits = 1, expiresAt = 9000\<rparr>),
         (''b'', \<lparr>data = ''y'', timestamp = 0, size_entry = 40, hits = 3, expiresAt = 9000\<rparr>)],
      sizeUsed = 80, maxSize = 100, defaultTTL = 1000\<rparr>
   = \<lparr>cache =
        [(''a'', \<lparr>data = ''x'', timestamp = 1500, size_entry = 40, hits = 1, expiresAt = 9000\<rparr>)],
      sizeUsed = 40, maxSize = 100, defaultTTL = 1000\<rparr> \<and>
   spec_score 2000 \<lparr>data = ''x'', timestamp = 1500, size_entry = 40, hits = 1, expiresAt = 9000\<rparr> = 1 \<and>
   spec_score 2000 \<lparr>data = ''y'', timestamp = 0, size_entry = 40, hits = 3, expiresAt = 9000\<rparr> = 3 / 2 \<and>
   score 2000 \<lparr>data = ''x'', timestamp = 1500, size_entry = 40, hits = 1, expiresAt = 9000\<rparr> = 2 \<and>
   score 2000 \<lparr>data = ''y'', timestamp = 0, size_entry = 40, hits = 3, expiresAt = 9000\<rparr> = 3 / 2"
proof -
  let ?a = "\<lparr>data = ''x'', timestamp = 1500, size_entry = 40, hits = 1, expiresAt = (9000::int)\<rparr>"
  let ?b = "\<lparr>data = ''y'', timestamp = 0, size_entry = 40, hits = 3, expiresAt = (9000::int)\<rparr>"
  have sc: "score 2000 ?a = 2" "score 2000 ?b = 3 / 2"
    by code_simp+
  have sp: "spec_score 2000 ?a = 1" "spec_score 2000 ?b = 3 / 2"
    by (simp_all add: spec_score_def)
  have "readings (\<lambda>i. 2000) [(''a'', ?a), (''b'', ?b)] = [(2000, ''a'', ?a), (2000, ''b'', ?b)]"
    by (simp add: readings_def upt_rec)
  then have "evictLRU (\<lambda>i. 2000)
       \<lparr>cache = [(''a'', ?a), (''b'', ?b)], sizeUsed = 80, maxSize = 100, defaultTTL = 1000\<rparr>
     = \<lparr>cache = [(''a'', ?a)], sizeUsed = 40, maxSize = 100, defaultTTL = 1000\<rparr>"
    using sc by (simp add: evictLRU_def cache_delete_def map_delete_def)
  then show ?thesis using sc sp by simp
qed

text \<open>
  Claim C8, as amended. For a positive explicit ttl and a value whose estimated size
  does not exceed \<^verbatim>\<open>maxSize\<close>: \<^verbatim>\<open>set\<close> returns when no stored key is the empty
  string, and whenever it returns, a \<^verbatim>\<open>get\<close> of the key before the ttl has elapsed
  returns the value, and a \<^verbatim>\<open>get\<close> once it has elapsed returns absent and leaves the
  key out of the store.
\<close>

theorem cache_roundtrip:
  assumes "0 < ttl" and "int (est v) \<le> maxSize c"
  shows "([] \<notin> fst ` set (cache c) \<longrightarrow> cache_set est clocks t0 k v (Some ttl) c \<noteq> None) \<and>
         (\<forall>c1. cache_set est clocks t0 k v (Some ttl) c = Some c1 \<longrightarrow>
            (now < t0 + ttl \<longrightarrow> fst (cache_get now k c1) = Some v) \<and>
            (t0 + ttl \<le> now \<longrightarrow>
               fst (cache_get now k c1) = None \<and>
               k \<notin> fst ` set (cache (snd (cache_get now k c1)))))"
proof (intro conjI impI allI)
  assume "[] \<notin> fst ` set (cache c)"
  from evict_loop_iterates [OF this, of clocks "int (est v)"]
  obtain c1 where "evict_loop clocks (int (est v)) c = Some c1" by blast
  then show "cache_set est clocks t0 k v (Some ttl) c \<noteq> None"
    by (simp add: cache_set_def Let_def)
next
  fix c1
  assume set: "cache_set est clocks t0 k v (Some ttl) c = Some c1"
  define entry where "entry = \<lparr>data = v, timestamp = t0, size_entry = int (est v), hits = 0,
                           expiresAt = t0 + ttl\<rparr>"
  have m: "map_of (cache c1) k = Some entry"
    using set assms
    by (auto simp: cache_set_def Let_def resolve_ttl_def entry_def map_of_map_set_same
        split: option.splits)
  { assume "now < t0 + ttl"
    then show "fst (cache_get now k c1) = Some v"
      using m by (simp add: cache_get_def entry_def) }
  { assume "t0 + ttl \<le> now"
    then show "fst (cache_get now k c1) = None"
      using m by (simp add: cache_get_def entry_def) }
  { assume "t0 + ttl \<le> now"
    then show "k \<notin> fst ` set (cache (snd (cache_get now k c1)))"
      using m by (simp add: cache_get_def entry_def cache_delete_def keys_map_delete) }
qed

theorem cache_roundtrip_witness:
  "cache_set (\<lambda>s. 2 * length s) (\<lambda>j i. 0) 0 ''k'' ''123'' (Some 1000)
     (newCacheManager (Some 10) None)
     = Some \<lparr>cache = [(''k'', \<lparr>data = ''123'', timestamp = 0, size_entry = 6, hits = 0,
                                 expiresAt = 1000\<rparr>)],
             sizeUsed = 6, maxSize = 10, defaultTTL = 300000\<rparr> \<and>
   fst (cache_get 999 ''k''
         \<lparr>cache = [(''k'', \<lparr>data = ''123'', timestamp = 0, size_entry = 6, hits = 0,
                                 expiresAt = 1000\<rparr>)],
             sizeUsed = 6, maxSize = 10, defaultTTL = 300000\<rparr>) = Some ''123'' \<and>
   fst (cache_get 1000 ''k''
         \<lparr>cache = [(''k'', \<lparr>data = ''123'', timestamp = 0, size_entry = 6, hits = 0,
                                 expiresAt = 1000\<rparr>)],
             sizeUsed = 6, maxSize = 10, defaultTTL = 300000\<rparr>) = None"
proof -
  let ?c = "newCacheManager (Some 10) None :: string CacheManager"
  have h1: "(0::int) < 1000" by simp
  have h2: "int (2 * length ''123'') \<le> maxSize ?c" by (simp add: newCacheManager_def)
  have s: "cache_set (\<lambda>s. 2 * length s) (\<lambda>j i. 0) 0 ''k'' ''123'' (Some 1000) ?c
     = Some \<lparr>cache = [(''k'', \<lparr>data = ''123'', timestamp = 0, size_entry = 6, hits = 0,
                                 expiresAt = 1000\<rparr>)],
             sizeUsed = 6, maxSize = 10, defaultTTL = 300000\<rparr>"
    by (simp add: newCacheManager_def cache_set_def evict_loop.simps needs_room_def
      resolve_ttl_def Let_def)
  from cache_roundtrip [of 1000 "\<lambda>s. 2 * length s" "''123''" ?c "\<lambda>j i. 0" 0 "''k''" 999, OF h1 h2]
       cache_roundtrip [of 1000 "\<lambda>s. 2 * length s" "''123''" ?c "\<lambda>j i. 0" 0 "''k''" 1000, OF h1 h2] s
  show ?thesis by simp
qed

text \<open>
  The claim as stated (for every value) fails: a value whose estimated size exceeds
  \<^verbatim>\<open>maxSize\<close> is not cached, and the \<^verbatim>\<open>get\<close> that follows returns absent.
\<close>

theorem cache_roundtrip_oversized_counterexample:
  "cache_set (\<lambda>s. 2 * length s) (\<lambda>j i. 0) 0 ''k'' ''123456'' (Some 1000)
     (newCacheManager (Some 10) None)
     = Some (newCacheManager (Some 10) None) \<and>
   fst (cache_get 1 ''k'' (newCacheManager (Some 10) None :: string CacheManager)) = None"
  by (simp add: newCacheManager_def cache_set_def cache_get_def)

section \<open>Backoff of the request dispatcher (RedditAPI.calculateBackoff)\<close>

text \<open>
  \<^verbatim>\<open>Math.random()\<close> is the argument \<open>random\<close>, a number in \<open>[0, 1)\<close>. Every
  operation rounds to a double as the source does; the literal \<^verbatim>\<open>0.2\<close> is the double
  nearest to 2/10. \<^verbatim>\<open>Math.pow\<close> of 2 and an integer exponent is the power of two,
  rounded where it underflows. \<^verbatim>\<open>Math.round\<close> is \<open>round\<close>: both return the nearest
  integer and round a half upwards.
\<close>

definition MAX_BACKOFF_MS :: rat where "MAX_BACKOFF_MS = 30000"
definition INITIAL_BACKOFF_MS :: rat where "INITIAL_BACKOFF_MS = 100"
definition BACKOFF_MULTIPLIER :: rat where "BACKOFF_MULTIPLIER = 2"

definition Math_pow :: "rat \<Rightarrow> int \<Rightarrow> rat" where
  "Math_pow x n = to_double (x powi n)"

definition cappedBackoff :: "int \<Rightarrow> rat" where
  "cappedBackoff retriesLeft =
     (let maxRetries = 2;
          retriesUsed = maxRetries - retriesLeft;
          baseBackoff = fmul INITIAL_BACKOFF_MS (Math_pow BACKOFF_MULTIPLIER retriesUsed)
      in min baseBackoff MAX_BACKOFF_MS)"

definition calculateBackoff :: "rat \<Rightarrow> int \<Rightarrow> int" where
  "calculateBackoff random retriesLeft =
     (let capped = cappedBackoff retriesLeft;
          jitter = fmul (fmul capped (to_double (2 / 10))) (fsub (fmul random 2) 1);
          backoff = max 0 (fadd capped jitter)
      in round backoff)"

section \<open>Backoff delays of the budgets the dispatcher passes\<close>

text \<open>
  The sum of the capped delay and the jitter stays within a quarter of the capped delay
  in either direction, after every rounding: the bounds \<open>L\<close> and \<open>H\<close> of the lemma
  are doubles themselves, and rounding is monotone.
\<close>

lemma jitter_range:
  fixes c d L H u :: rat
  assumes u: "0 \<le> u" "u < 1" and c: "0 \<le> c" "c \<le> 4 * d"
    and d: "to_double d = d" and L: "to_double L = L" "L \<le> c - d"
    and H: "to_double H = H" "c + d \<le> H"
  shows "L \<le> fadd c (fmul (fmul c (to_double (2 / 10))) (fsub (fmul u 2) 1))"
    and "fadd c (fmul (fmul c (to_double (2 / 10))) (fsub (fmul u 2) 1)) \<le> H"
proof -
  define k where "k = to_double (2 / 10)"
  define t where "t = fmul c k"
  define w where "w = fsub (fmul u 2) 1"
  define j where "j = fmul t w"
  have k0: "0 \<le> k" unfolding k_def by (rule to_double_nonneg) simp
  have k1: "k \<le> 1 / 4" unfolding k_def by (rule to_double_le) simp_all
  have ck0: "0 \<le> c * k" using c(1) k0 by simp
  have "c * k \<le> c * (1 / 4)" using k1 c(1) by (rule mult_left_mono)
  moreover have "c * (1 / 4) \<le> d" using c(2) by simp
  ultimately have ck1: "c * k \<le> d" by (rule order_trans)
  have t0: "0 \<le> t" unfolding t_def fmul_def using ck0 by (rule to_double_nonneg)
  have t1: "t \<le> d" unfolding t_def fmul_def using ck1 d by (rule to_double_le)
  have "0 \<le> u * 2" "u * 2 \<le> 2" using u by simp_all
  then have v: "0 \<le> fmul u 2" "fmul u 2 \<le> 2"
    unfolding fmul_def by (simp_all add: to_double_nonneg to_double_le)
  then have "- 1 \<le> fmul u 2 - 1" "fmul u 2 - 1 \<le> 1" by simp_all
  then have w: "- 1 \<le> w" "w \<le> 1"
    unfolding w_def fsub_def by (simp_all add: to_double_ge to_double_le)
  have md: "to_double (- d) = - d" by (simp add: to_double_minus d)
  have "t * w \<le> t * 1" using w(2) t0 by (rule mult_left_mono)
  then have tw1: "t * w \<le> d" using t1 by simp
  have "t * (- 1) \<le> t * w" using w(1) t0 by (rule mult_left_mono)
  then have tw0: "- d \<le> t * w" using t1 by simp
  have j0: "- d \<le> j" unfolding j_def fmul_def using tw0 md by (rule to_double_ge)
  have j1: "j \<le> d" unfolding j_def fmul_def using tw1 d by (rule to_double_le)
  have "L \<le> c + j" using j0 L(2) by simp
  then have lo: "L \<le> fadd c j" unfolding fadd_def using L(1) by (rule to_double_ge)
  have "c + j \<le> H" using j1 H(2) by simp
  then have hi: "fadd c j \<le> H" unfolding fadd_def using H(1) by (rule to_double_le)
  show "L \<le> fadd c (fmul (fmul c (to_double (2 / 10))) (fsub (fmul u 2) 1))"
    using lo by (simp add: j_def t_def w_def k_def)
  show "fadd c (fmul (fmul c (to_double (2 / 10))) (fsub (fmul u 2) 1)) \<le> H"
    using hi by (simp add: j_def t_def w_def k_def)
qed

lemma round_small: "0 \<le> x \<Longrightarrow> x < 1 / 2 \<Longrightarrow> round (x :: rat) = 0"
  unfolding round_def by (intro floor_unique) simp_all

lemma backoff_range:
  assumes r: "1 \<le> r" and u: "0 \<le> u" "u < 1"
  shows "round (75 * (2::rat) powi (2 - r)) \<le> calculateBackoff u r"
    and "calculateBackoff u r \<le> round (125 * (2::rat) powi (2 - r))"
proof -
  define n where "n = 2 - r"
  define s where "s = fadd (cappedBackoff r)
    (fmul (fmul (cappedBackoff r) (to_double (2 / 10))) (fsub (fmul u 2) 1))"
  have cb: "calculateBackoff u r = round (max 0 s)"
    by (simp add: calculateBackoff_def s_def Let_def)
  have n1: "n \<le> 1" using r by (simp add: n_def)
  have "round (75 * (2::rat) powi n) \<le> round (max 0 s) \<and> round (max 0 s) \<le> round (125 * (2::rat) powi n)"
  proof (cases "- 1074 \<le> n")
    case True
    have p: "Math_pow 2 n = 2 powi n"
      using to_double_exact [of 1 n] True by (simp add: Math_pow_def)
    have b: "fmul 100 (2 powi n) = 100 * 2 powi n"
      using to_double_exact [of 100 n] True by (simp add: fmul_def)
    have "(2::rat) powi n \<le> 2 powi 1" using n1 by (rule two_powi_mono)
    then have "100 * (2::rat) powi n \<le> 30000" by simp
    then have c: "cappedBackoff r = 100 * 2 powi n"
      by (simp add: cappedBackoff_def INITIAL_BACKOFF_MS_def BACKOFF_MULTIPLIER_def
          MAX_BACKOFF_MS_def Let_def p b n_def [symmetric])
    have ex: "to_double (25 * 2 powi n) = 25 * 2 powi n" "to_double (75 * 2 powi n) = 75 * 2 powi n"
      "to_double (125 * 2 powi n) = 125 * 2 powi n"
      using to_double_exact [of 25 n] to_double_exact [of 75 n] to_double_exact [of 125 n] True
      by simp_all
    have "75 * 2 powi n \<le> s"
      unfolding s_def c
      by (rule jitter_range(1) [where d = "25 * 2 powi n" and H = "125 * 2 powi n"])
        (use u ex in simp_all)
    moreover have "s \<le> 125 * 2 powi n"
      unfolding s_def c
      by (rule jitter_range(2) [where d = "25 * 2 powi n" and L = "75 * 2 powi n"])
        (use u ex in simp_all)
    moreover have "0 \<le> 75 * (2::rat) powi n" by simp
    ultimately have "75 * 2 powi n \<le> max 0 s" "max 0 s \<le> 125 * 2 powi n" by simp_all
    then show ?thesis by (simp add: round_mono)
  next
    case False
    define eps :: rat where "eps = 2 powi (- 1074)"
    have eps: "0 < eps" "eps \<le> 1 / 1024"
    proof -
      show "0 < eps" by (simp add: eps_def)
      have "(2::rat) powi (- 1074) \<le> 2 powi (- 10)" by (rule two_powi_mono) simp
      then show "eps \<le> 1 / 1024" by (simp add: eps_def power_int_minus)
    qed
    have ex: "to_double eps = eps" "to_double (100 * eps) = 100 * eps"
      "to_double (25 * eps) = 25 * eps" "to_double (- (25 * eps)) = - (25 * eps)"
      "to_double (125 * eps) = 125 * eps"
      using to_double_exact [of 1 "- 1074"] to_double_exact [of 100 "- 1074"]
        to_double_exact [of 25 "- 1074"] to_double_exact [of "- 25" "- 1074"]
        to_double_exact [of 125 "- 1074"]
      by (simp_all add: eps_def)
    have "(2::rat) powi n \<le> eps" unfolding eps_def using False by (intro two_powi_mono) simp
    then have p: "0 \<le> Math_pow 2 n" "Math_pow 2 n \<le> eps"
      unfolding Math_pow_def by (simp_all add: to_double_nonneg to_double_le ex)
    then have "0 \<le> 100 * Math_pow 2 n" "100 * Math_pow 2 n \<le> 100 * eps" by simp_all
    then have b: "0 \<le> fmul 100 (Math_pow 2 n)" "fmul 100 (Math_pow 2 n) \<le> 100 * eps"
      unfolding fmul_def by (simp_all add: to_double_nonneg to_double_le ex)
    then have "fmul 100 (Math_pow 2 n) \<le> 30000" using eps by simp
    then have c: "cappedBackoff r = fmul 100 (Math_pow 2 n)"
      by (simp add: cappedBackoff_def INITIAL_BACKOFF_MS_def BACKOFF_MULTIPLIER_def
          MAX_BACKOFF_MS_def Let_def n_def [symmetric])
    have "- (25 * eps) \<le> s"
      unfolding s_def c
      by (rule jitter_range(1) [where d = "25 * eps" and H = "125 * eps"])
        (use u ex b in simp_all)
    moreover have "s \<le> 125 * eps"
      unfolding s_def c
      by (rule jitter_range(2) [where d = "25 * eps" and L = "- (25 * eps)"])
        (use u ex b in simp_all)
    ultimately have "0 \<le> max 0 s" "max 0 s < 1 / 2" using eps by simp_all
    then have z: "round (max 0 s) = 0" by (rule round_small)
    have "(2::rat) powi n \<le> eps" by fact
    then have "75 * (2::rat) powi n < 1 / 2" "125 * (2::rat) powi n < 1 / 2" using eps by simp_all
    then have "round (75 * (2::rat) powi n) = 0" "round (125 * (2::rat) powi n) = 0"
      by (simp_all add: round_small)
    then show ?thesis using z by simp
  qed
  then show "round (75 * (2::rat) powi (2 - r)) \<le> calculateBackoff u r"
    and "calculateBackoff u r \<le> round (125 * (2::rat) powi (2 - r))"
    by (simp_all add: cb n_def)
qed

lemma backoff_bounds:
  assumes "1 \<le> r" "0 \<le> u" "u < 1"
  shows "0 \<le> calculateBackoff u r" "calculateBackoff u r \<le> 250"
proof -
  have "(0::rat) \<le> 75 * 2 powi (2 - r)" by simp
  then have "round (0::rat) \<le> round (75 * (2::rat) powi (2 - r))" by (rule round_mono)
  then show "0 \<le> calculateBackoff u r" using backoff_range(1) [OF assms] by simp
  have "(2::rat) powi (2 - r) \<le> 2 powi 1" using assms(1) by (intro two_powi_mono) simp
  then have "125 * (2::rat) powi (2 - r) \<le> 250" by simp
  then have "round (125 * (2::rat) powi (2 - r)) \<le> round (250::rat)" by (rule round_mono)
  then show "calculateBackoff u r \<le> 250" using backoff_range(2) [OF assms] by simp
qed

lemma backoff_increases:
  assumes "1 \<le> r2" "r2 < r1" "0 \<le> u1" "u1 < 1" "0 \<le> u2" "u2 < 1"
  shows "calculateBackoff u1 r1 \<le> calculateBackoff u2 r2"
proof -
  have e: "(2::rat) powi (2 - r1 + 1) = 2 powi (2 - r1) * 2"
    by (rule power_int_add_1) simp
  have "2 - r1 + 1 \<le> 2 - r2" using assms(2) by simp
  then have "(2::rat) powi (2 - r1 + 1) \<le> 2 powi (2 - r2)" by (rule two_powi_mono)
  then have "2 * (2::rat) powi (2 - r1) \<le> 2 powi (2 - r2)"
    unfolding e by simp
  moreover have "0 \<le> (2::rat) powi (2 - r1)" by simp
  ultimately have "125 * (2::rat) powi (2 - r1) \<le> 75 * 2 powi (2 - r2)" by linarith
  then have "round (125 * (2::rat) powi (2 - r1)) \<le> round (75 * (2::rat) powi (2 - r2))"
    by (rule round_mono)
  moreover have "calculateBackoff u1 r1 \<le> round (125 * (2::rat) powi (2 - r1))"
    using assms by (intro backoff_range(2)) simp_all
  moreover have "round (75 * (2::rat) powi (2 - r2)) \<le> calculateBackoff u2 r2"
    using assms by (intro backoff_range(1)) simp_all
  ultimately show ?thesis by linarith
qed

text \<open>
  Beyond the budgets the dispatcher passes the cap does cut the delay, and the jitter is
  added after the cap: with nine retries used the base of 51200 ms is cut to 30000 ms,
  the jitter moves it between 24000 and 36000 ms, and the delay can fall from one retry
  to the next.
\<close>

lemma calculateBackoff_beyond_budget:
  "calculateBackoff (1 / 2) (- 7) = 30000"
  "calculateBackoff (999 / 1000) (- 7) = 35988"
  "calculateBackoff 0 (- 8) = 24000"
  "calculateBackoff (999 / 1000) (- 6) = 30710"
  by code_simp+

section \<open>Cache keys (CacheManager.createKey)\<close>

text \<open>
  A key part is a string, a number, a boolean, \<^verbatim>\<open>undefined\<close> or \<^verbatim>\<open>null\<close>. The
  numbers of the model are the integers of magnitude below \<open>2 ^ 53\<close>, which
  \<^verbatim>\<open>String\<close> prints in decimal digits; fractions and larger numbers
  (\<^verbatim>\<open>String(1e21)\<close> is \<^verbatim>\<open>1e+21\<close>) are not represented. Characters are the code
  units below 256: \<^verbatim>\<open>toLowerCase\<close> maps the capital letters of ASCII and Latin-1,
  and \<^verbatim>\<open>trim\<close> removes the white space of that range (tab to carriage return,
  space, no-break space).
\<close>

datatype key_part = PString string | PNumber int | PBoolean bool | PUndefined | PNull

datatype key_error = NoParts | EmptyPart

text \<open>\<^verbatim>\<open>Number.prototype.toString(radix)\<close> of an integer: digits \<open>0-9a-z\<close>, a minus sign first.\<close>

definition digit_char :: "int \<Rightarrow> char" where
  "digit_char d = (if d < 10 then char_of (48 + d) else char_of (87 + d))"

function to_radix :: "int \<Rightarrow> int \<Rightarrow> string" where
  "to_radix b n =
     (if b < 2 \<or> n < b then [digit_char n]
      else to_radix b (n div b) @ [digit_char (n mod b)])"
  by pat_completeness auto
termination
  by (relation "measure (\<lambda>(b, n). nat n)") (auto simp: int_div_less_self)

definition int_to_string :: "int \<Rightarrow> int \<Rightarrow> string" where
  "int_to_string b i = (if i < 0 then CHR ''-'' # to_radix b (- i) else to_radix b i)"

fun String_of :: "key_part \<Rightarrow> string" where
  "String_of (PString s) = s"
| "String_of (PNumber n) = int_to_string 10 n"
| "String_of (PBoolean b) = (if b then ''true'' else ''false'')"
| "String_of PUndefined = ''undefined''"
| "String_of PNull = ''null''"

definition lower_char :: "char \<Rightarrow> char" where
  "lower_char ch =
     (let n = (of_char ch :: nat) in
      if (65 \<le> n \<and> n \<le> 90) \<or> (192 \<le> n \<and> n \<le> 222 \<and> n \<noteq> 215) then char_of (n + 32) else ch)"

definition toLowerCase :: "string \<Rightarrow> string" where
  "toLowerCase s = map lower_char s"

definition white_space :: "char \<Rightarrow> bool" where
  "white_space ch \<longleftrightarrow> (let n = (of_char ch :: nat) in (9 \<le> n \<and> n \<le> 13) \<or> n = 32 \<or> n = 160)"

definition trim :: "string \<Rightarrow> string" where
  "trim s = rev (dropWhile white_space (rev (dropWhile white_space s)))"

definition valid_key_char :: "char \<Rightarrow> bool" where
  "valid_key_char ch \<longleftrightarrow>
     (let n = (of_char ch :: nat) in
      (97 \<le> n \<and> n \<le> 122) \<or> (48 \<le> n \<and> n \<le> 57) \<or> ch = CHR ''_'' \<or> ch = CHR ''-'')"

definition sanitize :: "string \<Rightarrow> string" where
  "sanitize s = map (\<lambda>ch. if valid_key_char ch then ch else CHR ''_'') s"

fun join :: "string \<Rightarrow> string list \<Rightarrow> string" where
  "join sep [] = []"
| "join sep [s] = s"
| "join sep (s # t # ss) = s @ sep @ join sep (t # ss)"

text \<open>
  \<^verbatim>\<open>((acc << 5) - acc + char.charCodeAt(0)) | 0\<close>: arithmetic modulo \<open>2^32\<close>, read as a
  signed number when it is printed.
\<close>

definition key_hash :: "string \<Rightarrow> 32 word" where
  "key_hash key = fold (\<lambda>ch acc. push_bit 5 acc - acc + of_nat (of_char ch)) key 0"

definition createKey :: "key_part list \<Rightarrow> key_error + string" where
  "createKey parts =
     (let validParts = filter (\<lambda>p. p \<noteq> PUndefined \<and> p \<noteq> PNull) parts in
      if length validParts = 0 then Inl NoParts
      else
        (let strs = map (\<lambda>p. trim (toLowerCase (String_of p))) validParts in
         if list_ex (\<lambda>str. length str = 0) strs then Inl EmptyPart
         else
           (let key = join '':'' (map sanitize strs) in
            if length key > 256
            then Inr (take 245 key @ ''_'' @ int_to_string 36 (sint (key_hash key)))
            else Inr key)))"

text \<open>The parts that are filtered out, and the parts that are blank once normalised.\<close>

definition absent_part :: "key_part \<Rightarrow> bool" where
  "absent_part p \<longleftrightarrow> p = PUndefined \<or> p = PNull"

definition blank_part :: "key_part \<Rightarrow> bool" where
  "blank_part p \<longleftrightarrow> \<not> absent_part p \<and> trim (toLowerCase (String_of p)) = []"

section \<open>When the cache key constructor throws\<close>

text \<open>
  Claim C10. \<^verbatim>\<open>createKey\<close> throws "must have at least one part" exactly when every
  argument is \<^verbatim>\<open>undefined\<close> or \<^verbatim>\<open>null\<close> (also when there is no argument), throws
  "parts cannot be empty strings" exactly when some other argument is empty after string
  conversion, lowercasing and trimming, and returns a key for all other inputs.
\<close>

theorem createKey_throws_iff:
  "(createKey parts = Inl NoParts \<longleftrightarrow> (\<forall>p \<in> set parts. absent_part p)) \<and>
   (createKey parts = Inl EmptyPart \<longleftrightarrow> (\<exists>p \<in> set parts. blank_part p)) \<and>
   ((\<exists>key. createKey parts = Inr key) \<longleftrightarrow>
      \<not> (\<forall>p \<in> set parts. absent_part p) \<and> \<not> (\<exists>p \<in> set parts. blank_part p))"
proof -
  define validParts where "validParts = filter (\<lambda>p. p \<noteq> PUndefined \<and> p \<noteq> PNull) parts"
  define strs where "strs = map (\<lambda>p. trim (toLowerCase (String_of p))) validParts"
  have v: "validParts = [] \<longleftrightarrow> (\<forall>p \<in> set parts. absent_part p)"
    by (auto simp: validParts_def absent_part_def filter_empty_conv)
  have e: "list_ex (\<lambda>str. length str = 0) strs \<longleftrightarrow> (\<exists>p \<in> set parts. blank_part p)"
    by (force simp: strs_def validParts_def blank_part_def absent_part_def list_ex_iff)
  have b: "(\<exists>p \<in> set parts. blank_part p) \<Longrightarrow> \<not> (\<forall>p \<in> set parts. absent_part p)"
    by (auto simp: blank_part_def)
  have c: "createKey parts =
     (if validParts = [] then Inl NoParts
      else if list_ex (\<lambda>str. length str = 0) strs then Inl EmptyPart
      else (let key = join '':'' (map sanitize strs) in
            if length key > 256
            then Inr (take 245 key @ ''_'' @ int_to_string 36 (sint (key_hash key)))
            else Inr key))"
    by (simp add: createKey_def validParts_def strs_def Let_def)
  show ?thesis
    unfolding c using v e b by (auto simp: Let_def)
qed

theorem createKey_throws_iff_witness:
  "createKey [PUndefined, PNull] = Inl NoParts \<and>
   createKey [PString ''search'', PString ''  ''] = Inl EmptyPart \<and>
   createKey [PString ''search'', PString ''What is AI?'', PUndefined, PNumber 10]
     = Inr ''search:what_is_ai_:10'' \<and>
   blank_part (PString ''  '') \<and> \<not> blank_part (PString ''What is AI?'')"
proof -
  have a: "\<forall>p \<in> set [PUndefined, PNull]. absent_part p" by (simp add: absent_part_def)
  have b: "blank_part (PString ''  '')" "\<not> blank_part (PString ''What is AI?'')"
    by (simp_all add: blank_part_def absent_part_def trim_def toLowerCase_def white_space_def
        lower_char_def)
  then have b': "\<exists>p \<in> set [PString ''search'', PString ''  '']. blank_part p" by simp
  have k: "createKey [PString ''search'', PString ''What is AI?'', PUndefined, PNumber 10]
     = Inr ''search:what_is_ai_:10''"
    by code_simp
  from createKey_throws_iff [of "[PUndefined, PNull]"]
       createKey_throws_iff [of "[PString ''search'', PString ''  '']"] a b b' k
  show ?thesis by simp
qed

section \<open>Token manager (class AuthManager)\<close>

text \<open>
  The credential record. A field that is \<^verbatim>\<open>undefined\<close> is \<open>None\<close>; instants are
  milliseconds since the epoch, lifetimes whole seconds.
\<close>

record AuthConfig =
  clientId :: string
  accessToken :: "string option"
  expiresAt :: "int option"
  scope :: "string option"
  deviceId :: "string option"

text \<open>
  What the token endpoint answers: \<^verbatim>\<open>fetch\<close> throws, the response is not ok,
  \<^verbatim>\<open>response.json()\<close> throws, or a JSON object arrives, of which the four fields the
  schema names are kept (\<open>None\<close>: missing or of the wrong type).
\<close>

record token_json =
  access_token :: "string option"
  token_type :: "string option"
  expires_in :: "int option"
  scope_field :: "string option"

datatype fetch_result = FetchThrows | NotOk int | JsonThrows | Json token_json

datatype refresh_failure =
  FetchFailed | TokenEndpointStatus int | InvalidJson | InvalidTokenResponse | ConfigCleared
  | SaveFailed

datatype auth_error = NoClientIdConfigured | FailedToRefresh refresh_failure

text \<open>
  \<^verbatim>\<open>OAuthTokenResponseSchema\<close>: a non-empty \<^verbatim>\<open>access_token\<close>, a non-empty
  \<^verbatim>\<open>token_type\<close>, a positive \<^verbatim>\<open>expires_in\<close> and a \<^verbatim>\<open>scope\<close> string.
\<close>

definition parse_token_json :: "token_json \<Rightarrow> (string \<times> int \<times> string) option" where
  "parse_token_json raw =
     (case (access_token raw, token_type raw, expires_in raw, scope_field raw) of
        (Some a, Some t, Some e, Some s) \<Rightarrow>
          if a \<noteq> [] \<and> t \<noteq> [] \<and> 0 < e then Some (a, e, s) else None
      | _ \<Rightarrow> None)"

text \<open>
  The promise of one \<^verbatim>\<open>doRefreshAccessToken()\<close>: waiting for the token endpoint,
  waiting for \<^verbatim>\<open>save\<close> (the credential is already updated), resolved, or rejected.
  The manager keeps every promise it has created; \<^verbatim>\<open>tokenRefreshPromise\<close> is the
  position of the one the marker holds, or \<open>None\<close> for \<^verbatim>\<open>null\<close>.
  \<open>token_requests\<close> counts the calls to the token endpoint (it is not a field of the
  source).
\<close>

datatype promise = Fetching | Saving | Resolved | Rejected auth_error

record AuthManager =
  config :: "AuthConfig option"
  tokenRefreshPromise :: "nat option"
  promises :: "promise list"
  token_requests :: nat

definition TOKEN_EXPIRATION_BUFFER_MS :: int where
  "TOKEN_EXPIRATION_BUFFER_MS = 10000"

text \<open>\<^verbatim>\<open>!x\<close> for an optional string or number: \<^verbatim>\<open>undefined\<close>, the empty string and 0.\<close>

definition falsy_string :: "string option \<Rightarrow> bool" where
  "falsy_string x \<longleftrightarrow> x = None \<or> x = Some []"

definition isTokenExpired :: "int \<Rightarrow> AuthConfig option \<Rightarrow> bool" where
  "isTokenExpired now cfg =
     (case cfg of
        None \<Rightarrow> True
      | Some c \<Rightarrow>
          (case expiresAt c of
             None \<Rightarrow> True
           | Some e \<Rightarrow> if e = 0 \<or> e \<le> 0 then True else now \<ge> e - TOKEN_EXPIRATION_BUFFER_MS))"

text \<open>The condition under which \<^verbatim>\<open>getAccessToken\<close> refreshes.\<close>

definition needs_refresh :: "int \<Rightarrow> AuthConfig \<Rightarrow> bool" where
  "needs_refresh now c \<longleftrightarrow> falsy_string (accessToken c) \<or> isTokenExpired now (Some c)"

text \<open>\<^verbatim>\<open>this.config.accessToken || null\<close>\<close>

definition token_or_null :: "AuthConfig \<Rightarrow> string option" where
  "token_or_null c = (if falsy_string (accessToken c) then None else accessToken c)"

text \<open>
  \<^verbatim>\<open>doRefreshAccessToken\<close> in its three stretches between \<^verbatim>\<open>await\<close>s. The first runs
  inside the call that starts the refresh: it throws without a client id (the promise is
  rejected at once), else fills in the device id (\<open>r\<close> is the random string) and sends
  the request. The second runs when the endpoint has answered (\<open>now\<close> is the clock
  then): it rejects, or stores token, expiry and scope. The third runs when \<^verbatim>\<open>save\<close>
  has returned or thrown.
\<close>

definition doRefresh_start :: "string \<Rightarrow> AuthManager \<Rightarrow> promise \<times> AuthManager" where
  "doRefresh_start r m =
     (case config m of
        None \<Rightarrow> (Rejected NoClientIdConfigured, m)
      | Some c \<Rightarrow>
          if clientId c = [] then (Rejected NoClientIdConfigured, m)
          else
            (let c' = (if falsy_string (deviceId c) then c\<lparr>deviceId := Some r\<rparr> else c)
             in (Fetching, m\<lparr>config := Some c', token_requests := token_requests m + 1\<rparr>)))"

definition doRefresh_respond :: "fetch_result \<Rightarrow> int \<Rightarrow> AuthManager \<Rightarrow> promise \<times> AuthManager" where
  "doRefresh_respond res now m =
     (case res of
        FetchThrows \<Rightarrow> (Rejected (FailedToRefresh FetchFailed), m)
      | NotOk st \<Rightarrow> (Rejected (FailedToRefresh (TokenEndpointStatus st)), m)
      | JsonThrows \<Rightarrow> (Rejected (FailedToRefresh InvalidJson), m)
      | Json raw \<Rightarrow>
          (case parse_token_json raw of
             None \<Rightarrow> (Rejected (FailedToRefresh InvalidTokenResponse), m)
           | Some (a, e, s) \<Rightarrow>
               (case config m of
                  None \<Rightarrow> (Rejected (FailedToRefresh ConfigCleared), m)
                | Some c \<Rightarrow>
                    (Saving,
                     m\<lparr>config := Some (c\<lparr>accessToken := Some a,
                                            expiresAt := Some (now + e * 1000),
                                            scope := Some s\<rparr>)\<rparr>))))"

definition doRefresh_saved :: "bool \<Rightarrow> promise" where
  "doRefresh_saved ok = (if ok then Resolved else Rejected (FailedToRefresh SaveFailed))"

text \<open>
  How a refresh ends: the answer of the endpoint, the clock when it arrives, and whether
  \<^verbatim>\<open>save\<close> succeeds.
\<close>

record refresh_env =
  fetched :: fetch_result
  fetched_at :: int
  save_ok :: bool

text \<open>
  \<^verbatim>\<open>await p\<close> for a refresh promise, when nothing else runs in between: the refresh is
  carried to its end. The result is \<open>None\<close> when the promise resolves and the error
  when it rejects.
\<close>

definition settle :: "refresh_env \<Rightarrow> promise \<Rightarrow> AuthManager \<Rightarrow> promise \<times> AuthManager" where
  "settle env p m =
     (case p of
        Fetching \<Rightarrow>
          (case doRefresh_respond (fetched env) (fetched_at env) m of
             (Saving, m') \<Rightarrow> (doRefresh_saved (save_ok env), m')
           | (p', m') \<Rightarrow> (p', m'))
      | Saving \<Rightarrow> (doRefresh_saved (save_ok env), m)
      | _ \<Rightarrow> (p, m))"

definition outcome :: "promise \<Rightarrow> auth_error option" where
  "outcome p = (case p of Rejected e \<Rightarrow> Some e | _ \<Rightarrow> None)"

text \<open>
  \<^verbatim>\<open>refreshAccessToken\<close> run alone. With the marker set it awaits that promise; the
  call that started that refresh clears the marker in its \<^verbatim>\<open>finally\<close>, which runs
  first. With the marker clear it starts a refresh, stores its promise in the marker,
  awaits it and clears the marker, whether it resolved or rejected.
\<close>

definition refreshAccessToken ::
  "string \<Rightarrow> refresh_env \<Rightarrow> AuthManager \<Rightarrow> (auth_error + unit) \<times> AuthManager" where
  "refreshAccessToken r env m =
     (case tokenRefreshPromise m of
        Some i \<Rightarrow>
          (case settle env (promises m ! i) m of
             (p, m') \<Rightarrow>
               (case outcome p of Some e \<Rightarrow> Inl e | None \<Rightarrow> Inr (),
                m'\<lparr>promises := (promises m')[i := p], tokenRefreshPromise := None\<rparr>))
      | None \<Rightarrow>
          (case doRefresh_start r m of
             (p0, m0) \<Rightarrow>
               (let i = length (promises m0);
                    m1 = m0\<lparr>promises := promises m0 @ [p0], tokenRefreshPromise := Some i\<rparr>
                in case settle env p0 m1 of
                     (p, m2) \<Rightarrow>
                       (case outcome p of Some e \<Rightarrow> Inl e | None \<Rightarrow> Inr (),
                        m2\<lparr>promises := (promises m2)[i := p],
                           tokenRefreshPromise := None\<rparr>))))"

text \<open>
  \<^verbatim>\<open>getAccessToken\<close> run alone. Both branches of its inner \<^verbatim>\<open>if\<close> (await the
  marker, or call \<^verbatim>\<open>refreshAccessToken\<close>) are the two branches of
  \<open>refreshAccessToken\<close> above. Reading \<^verbatim>\<open>this.config.accessToken\<close> of a credential
  that is gone would throw a \<^verbatim>\<open>TypeError\<close>.
\<close>

definition getAccessToken ::
  "int \<Rightarrow> string \<Rightarrow> refresh_env \<Rightarrow> AuthManager \<Rightarrow> (auth_error + string option) \<times> AuthManager"
where
  "getAccessToken now r env m =
     (case config m of
        None \<Rightarrow> (Inr None, m)
      | Some c \<Rightarrow>
          if needs_refresh now c then
            (case refreshAccessToken r env m of
               (Inl e, m') \<Rightarrow> (Inl e, m')
             | (Inr u, m') \<Rightarrow>
                 (case config m' of
                    None \<Rightarrow> (Inl (FailedToRefresh ConfigCleared), m')
                  | Some c' \<Rightarrow> (Inr (token_or_null c'), m')))
          else (Inr (token_or_null c), m))"

text \<open>
  A manager as calls that run one at a time leave it: a promise that waits for
  \<^verbatim>\<open>save\<close> or has resolved was preceded by the update of the credential.
\<close>

definition auth_wf :: "AuthManager \<Rightarrow> bool" where
  "auth_wf m \<longleftrightarrow>
     (case tokenRefreshPromise m of
        None \<Rightarrow> True
      | Some i \<Rightarrow>
          i < length (promises m) \<and>
          (promises m ! i = Saving \<or> promises m ! i = Resolved
             \<longrightarrow> (case config m of None \<Rightarrow> False | Some c \<Rightarrow> \<not> falsy_string (accessToken c))))"

text \<open>The credential holds a token that is not empty.\<close>

definition has_token :: "AuthManager \<Rightarrow> bool" where
  "has_token m \<longleftrightarrow> (case config m of None \<Rightarrow> False | Some c \<Rightarrow> \<not> falsy_string (accessToken c))"

subsection \<open>Concurrent callers\<close>

text \<open>
  JavaScript runs one stretch of code at a time, from one \<^verbatim>\<open>await\<close> to the next.
  A caller of \<^verbatim>\<open>getAccessToken\<close> is idle, suspended at
  \<^verbatim>\<open>await this.tokenRefreshPromise\<close>, suspended at \<^verbatim>\<open>await refreshPromise\<close> inside the
  \<^verbatim>\<open>refreshAccessToken\<close> it called, back from \<^verbatim>\<open>refreshAccessToken\<close> (with its error,
  if it threw) but not yet resumed in \<^verbatim>\<open>getAccessToken\<close>, or done.
\<close>

datatype caller =
    Idle
  | AwaitingRefresh nat
  | InRefresh nat
  | Returning "auth_error option"
  | Done "auth_error + string option"

record auth_system =
  manager :: AuthManager
  callers :: "caller list"

text \<open>
  The events: caller \<open>i\<close> calls \<^verbatim>\<open>getAccessToken\<close> (with the clock and the random
  device id it would read); the token endpoint answers the refresh under way; its
  \<^verbatim>\<open>save\<close> ends; a suspended caller whose promise has settled is resumed.
\<close>

datatype auth_event = Call nat int string | Respond fetch_result int | Saved bool | Resume nat

definition settled :: "promise \<Rightarrow> bool" where
  "settled p \<longleftrightarrow> p \<noteq> Fetching \<and> p \<noteq> Saving"

definition finish :: "AuthManager \<Rightarrow> auth_error option \<Rightarrow> caller" where
  "finish m res =
     (case res of
        Some e \<Rightarrow> Done (Inl e)
      | None \<Rightarrow>
          (case config m of
             None \<Rightarrow> Done (Inl (FailedToRefresh ConfigCleared))
           | Some c \<Rightarrow> Done (Inr (token_or_null c))))"

fun auth_step :: "auth_event \<Rightarrow> auth_system \<Rightarrow> auth_system option" where
  "auth_step (Call i now r) s =
     (let m = manager s in
      if i < length (callers s) \<and> callers s ! i = Idle then
        (case config m of
           None \<Rightarrow> Some (s\<lparr>callers := (callers s)[i := Done (Inr None)]\<rparr>)
         | Some c \<Rightarrow>
             if needs_refresh now c then
               (case tokenRefreshPromise m of
                  Some p \<Rightarrow> Some (s\<lparr>callers := (callers s)[i := AwaitingRefresh p]\<rparr>)
                | None \<Rightarrow>
                    (case doRefresh_start r m of
                       (p0, m0) \<Rightarrow>
                         (let p = length (promises m0) in
                          Some \<lparr>manager = m0\<lparr>promises := promises m0 @ [p0],
                                              tokenRefreshPromise := Some p\<rparr>,
                                callers = (callers s)[i := InRefresh p]\<rparr>)))
             else Some (s\<lparr>callers := (callers s)[i := Done (Inr (token_or_null c))]\<rparr>))
      else None)"
| "auth_step (Respond res now) s =
     (let m = manager s in
      case tokenRefreshPromise m of
        None \<Rightarrow> None
      | Some p \<Rightarrow>
          if p < length (promises m) \<and> promises m ! p = Fetching then
            (case doRefresh_respond res now m of
               (p', m') \<Rightarrow> Some (s\<lparr>manager := m'\<lparr>promises := (promises m')[p := p']\<rparr>\<rparr>))
          else None)"
| "auth_step (Saved ok) s =
     (let m = manager s in
      case tokenRefreshPromise m of
        None \<Rightarrow> None
      | Some p \<Rightarrow>
          if p < length (promises m) \<and> promises m ! p = Saving then
            Some (s\<lparr>manager := m\<lparr>promises := (promises m)[p := doRefresh_saved ok]\<rparr>\<rparr>)
          else None)"
| "auth_step (Resume i) s =
     (let m = manager s in
      if i < length (callers s) then
        (case callers s ! i of
           AwaitingRefresh p \<Rightarrow>
             if p < length (promises m) \<and> settled (promises m ! p) then
               Some (s\<lparr>callers := (callers s)[i := finish m (outcome (promises m ! p))]\<rparr>)
             else None
         | InRefresh p \<Rightarrow>
             if p < length (promises m) \<and> settled (promises m ! p) then
               Some \<lparr>manager = m\<lparr>tokenRefreshPromise := None\<rparr>,
                     callers = (callers s)[i := Returning (outcome (promises m ! p))]\<rparr>
             else None
         | Returning res \<Rightarrow> Some (s\<lparr>callers := (callers s)[i := finish m res]\<rparr>)
         | _ \<Rightarrow> None)
      else None)"

fun auth_run :: "auth_event list \<Rightarrow> auth_system \<Rightarrow> auth_system option" where
  "auth_run [] s = Some s"
| "auth_run (e # es) s = (case auth_step e s of None \<Rightarrow> None | Some s' \<Rightarrow> auth_run es s')"

fun is_call :: "auth_event \<Rightarrow> bool" where
  "is_call (Call i now r) = True"
| "is_call _ = False"

definition auth_init :: "AuthConfig \<Rightarrow> nat \<Rightarrow> auth_system" where
  "auth_init c n =
     \<lparr>manager = \<lparr>config = Some c, tokenRefreshPromise = None, promises = [], token_requests = 0\<rparr>,
      callers = replicate n Idle\<rparr>"

text \<open>
  A refresh is under way while a promise of \<^verbatim>\<open>doRefreshAccessToken\<close> has not settled:
  the request to the token endpoint, or the \<^verbatim>\<open>save\<close> after it, is pending. A call
  is made while no valid token exists when \<open>needs_refresh\<close> holds at its clock reading.
  Neither says anything about the marker \<^verbatim>\<open>tokenRefreshPromise\<close>.
  \<open>all_calls P es s\<close> says that every call among the events \<open>es\<close>, run from \<open>s\<close>,
  finds \<open>P\<close> when it arrives, and that every event can happen when its turn comes.
\<close>

definition refresh_underway :: "auth_system \<Rightarrow> int \<Rightarrow> bool" where
  "refresh_underway s now \<longleftrightarrow> list_ex (\<lambda>p. \<not> settled p) (promises (manager s))"

definition no_valid_token :: "auth_system \<Rightarrow> int \<Rightarrow> bool" where
  "no_valid_token s now \<longleftrightarrow>
     (case config (manager s) of None \<Rightarrow> False | Some c \<Rightarrow> needs_refresh now c)"

fun all_calls :: "(auth_system \<Rightarrow> int \<Rightarrow> bool) \<Rightarrow> auth_event list \<Rightarrow> auth_system \<Rightarrow> bool" where
  "all_calls P [] s = True"
| "all_calls P (e # es) s =
     ((case e of Call i now r \<Rightarrow> P s now | _ \<Rightarrow> True) \<and>
      (case auth_step e s of None \<Rightarrow> False | Some s' \<Rightarrow> all_calls P es s'))"

text \<open>
  The invariant of the one refresh that the calls share: one promise, one request to
  the token endpoint; the marker is set while the promise is pending and stays set
  only until the caller that started the refresh has been resumed; a suspended caller
  awaits that promise; and, when every call was made while no valid token existed
  (\<open>strict\<close>), a caller that has returned carries the outcome of that promise.
\<close>

definition caller_ok :: "bool \<Rightarrow> AuthManager \<Rightarrow> caller \<Rightarrow> bool" where
  "caller_ok strict m k =
     (case k of
        Idle \<Rightarrow> True
      | AwaitingRefresh p \<Rightarrow> p = 0
      | InRefresh p \<Rightarrow> p = 0
      | Returning res \<Rightarrow> settled (promises m ! 0) \<and> res = outcome (promises m ! 0)
      | Done r \<Rightarrow>
          strict \<longrightarrow> settled (promises m ! 0) \<and> Done r = finish m (outcome (promises m ! 0)))"

definition flight :: "bool \<Rightarrow> nat \<Rightarrow> auth_system \<Rightarrow> bool" where
  "flight strict n s \<longleftrightarrow>
     (let m = manager s in
      length (callers s) = n \<and> length (promises m) = 1 \<and> token_requests m = 1 \<and>
      config m \<noteq> None \<and>
      (tokenRefreshPromise m = Some 0 \<or> tokenRefreshPromise m = None) \<and>
      (tokenRefreshPromise m = None \<longrightarrow> settled (promises m ! 0)) \<and>
      (tokenRefreshPromise m \<noteq> None \<longrightarrow> (\<exists>j<n. callers s ! j = InRefresh 0)) \<and>
      (promises m ! 0 = Saving \<or> promises m ! 0 = Resolved \<longrightarrow> has_token m) \<and>
      (\<forall>i<n. caller_ok strict m (callers s ! i)))"

section \<open>The token manager returns a token or fails\<close>

lemma parse_token_json_Some:
  "parse_token_json raw = Some (a, e, s) \<Longrightarrow> a \<noteq> [] \<and> 0 < e"
  by (auto simp: parse_token_json_def split: option.splits if_splits)

lemma doRefresh_respond_cases:
  assumes "doRefresh_respond res now m = (p, m')"
  shows "(\<exists>e. p = Rejected e \<and> m' = m) \<or>
         (p = Saving \<and> (\<exists>c a ex s. config m = Some c \<and> a \<noteq> [] \<and>
            m' = m\<lparr>config := Some (c\<lparr>accessToken := Some a, expiresAt := Some ex, scope := Some s\<rparr>)\<rparr>))"
  using assms
  by (auto simp: doRefresh_respond_def split: fetch_result.splits option.splits prod.splits
      dest: parse_token_json_Some)

lemma settle_cases:
  assumes "settle env p m = (p', m')" and "p = Saving \<or> p = Resolved \<longrightarrow> has_token m"
  shows "settled p' \<and> (p' = Resolved \<longrightarrow> has_token m') \<and>
         tokenRefreshPromise m' = tokenRefreshPromise m \<and> promises m' = promises m \<and>
         (config m \<noteq> None \<longrightarrow> config m' \<noteq> None)"
proof (cases p)
  case Fetching
  obtain q mq where r: "doRefresh_respond (fetched env) (fetched_at env) m = (q, mq)"
    by (cases "doRefresh_respond (fetched env) (fetched_at env) m")
  from doRefresh_respond_cases [OF r] show ?thesis
    using assms(1) Fetching r
    by (auto simp: settle_def settled_def doRefresh_saved_def has_token_def falsy_string_def
        split: if_splits)
next
  case Saving
  then show ?thesis using assms
    by (auto simp: settle_def settled_def doRefresh_saved_def split: if_splits)
next
  case Resolved
  then show ?thesis using assms by (auto simp: settle_def settled_def)
next
  case (Rejected e)
  then show ?thesis using assms by (auto simp: settle_def settled_def)
qed

lemma doRefresh_start_cases:
  assumes "doRefresh_start r m = (p0, m0)"
  shows "(p0 = Fetching \<or> (\<exists>e. p0 = Rejected e)) \<and>
         tokenRefreshPromise m0 = tokenRefreshPromise m \<and> promises m0 = promises m \<and>
         (config m \<noteq> None \<longrightarrow> config m0 \<noteq> None)"
  using assms by (auto simp: doRefresh_start_def Let_def split: option.splits if_splits)

lemma refreshAccessToken_ok:
  assumes "refreshAccessToken r env m = (res, m')" and "auth_wf m"
  shows "tokenRefreshPromise m' = None \<and> (res = Inr () \<longrightarrow> has_token m') \<and>
         (config m \<noteq> None \<longrightarrow> config m' \<noteq> None)"
proof (cases "tokenRefreshPromise m")
  case (Some i)
  obtain p ms where s: "settle env (promises m ! i) m = (p, ms)"
    by (cases "settle env (promises m ! i) m")
  have "promises m ! i = Saving \<or> promises m ! i = Resolved \<longrightarrow> has_token m"
    using assms(2) Some by (simp add: auth_wf_def has_token_def)
  from settle_cases [OF s this] show ?thesis
    using assms(1) Some s
    by (auto simp: refreshAccessToken_def outcome_def has_token_def settled_def
        split: promise.splits)
next
  case None
  obtain p0 m0 where st: "doRefresh_start r m = (p0, m0)" by (cases "doRefresh_start r m")
  note c0 = doRefresh_start_cases [OF st]
  define m1 where "m1 = m0\<lparr>promises := promises m0 @ [p0],
      tokenRefreshPromise := Some (length (promises m0))\<rparr>"
  obtain p ms where s: "settle env p0 m1 = (p, ms)" by (cases "settle env p0 m1")
  have "p0 = Saving \<or> p0 = Resolved \<longrightarrow> has_token m1" using c0 by auto
  from settle_cases [OF s this] show ?thesis
    using assms(1) None st s c0
    by (auto simp: refreshAccessToken_def Let_def m1_def outcome_def has_token_def settled_def
        split: promise.splits)
qed

text \<open>
  Claim C5, as amended. \<^verbatim>\<open>getAccessToken\<close> completes with \<^verbatim>\<open>null\<close> when no
  credential configuration is loaded. With a configuration loaded it either fails with
  an error or returns a token that is not empty, and never completes with an absent
  token.
\<close>

theorem getAccessToken_token_or_error:
  "(config m = None \<longrightarrow> getAccessToken now r env m = (Inr None, m)) \<and>
   (config m \<noteq> None \<and> auth_wf m \<longrightarrow>
      (case fst (getAccessToken now r env m) of
         Inl e \<Rightarrow> True
       | Inr tok \<Rightarrow> tok \<noteq> None \<and> tok \<noteq> Some []) \<and>
      auth_wf (snd (getAccessToken now r env m)))"
proof (intro conjI impI)
  assume "config m = None"
  then show "getAccessToken now r env m = (Inr None, m)" by (simp add: getAccessToken_def)
next
  assume a: "config m \<noteq> None \<and> auth_wf m"
  then obtain c where c: "config m = Some c" by auto
  obtain res m' where rf: "refreshAccessToken r env m = (res, m')"
    by (cases "refreshAccessToken r env m")
  note ok = refreshAccessToken_ok [OF rf] a
  show "case fst (getAccessToken now r env m) of
         Inl e \<Rightarrow> True
       | Inr tok \<Rightarrow> tok \<noteq> None \<and> tok \<noteq> Some []"
  proof (cases "needs_refresh now c")
    case True
    then show ?thesis
      using c rf ok
      by (auto simp: getAccessToken_def has_token_def token_or_null_def falsy_string_def
          split: sum.splits option.splits)
  next
    case False
    then show ?thesis
      using c by (auto simp: getAccessToken_def needs_refresh_def token_or_null_def falsy_string_def)
  qed
  show "auth_wf (snd (getAccessToken now r env m))"
  proof (cases "needs_refresh now c")
    case True
    then show ?thesis
      using c rf ok
      by (auto simp: getAccessToken_def auth_wf_def split: sum.splits option.splits)
  next
    case False
    then show ?thesis using c a by (simp add: getAccessToken_def)
  qed
qed

text \<open>
  The claim as stated (never an absent token, also with no configuration loaded) fails:
  with no configuration the call returns \<^verbatim>\<open>null\<close> and throws nothing.
\<close>

theorem getAccessToken_null_counterexample:
  "getAccessToken 0 ''device''
     \<lparr>fetched = FetchThrows, fetched_at = 0, save_ok = True\<rparr>
     \<lparr>config = None, tokenRefreshPromise = None, promises = [], token_requests = 0\<rparr>
   = (Inr None,
      \<lparr>config = None, tokenRefreshPromise = None, promises = [], token_requests = 0\<rparr>)"
  by (simp add: getAccessToken_def)

theorem getAccessToken_token_or_error_witness:
  "getAccessToken 5 ''device''
     \<lparr>fetched = Json \<lparr>access_token = Some ''tok'', token_type = Some ''bearer'',
                       expires_in = Some 3600, scope_field = Some ''*''\<rparr>,
      fetched_at = 100, save_ok = True\<rparr>
     \<lparr>config = Some \<lparr>clientId = ''abc'', accessToken = None, expiresAt = None, scope = None,
                      deviceId = None\<rparr>,
      tokenRefreshPromise = None, promises = [], token_requests = 0\<rparr>
   = (Inr (Some ''tok''),
      \<lparr>config = Some \<lparr>clientId = ''abc'', accessToken = Some ''tok'',
                       expiresAt = Some 3600100, scope = Some ''*'', deviceId = Some ''device''\<rparr>,
       tokenRefreshPromise = None, promises = [Resolved], token_requests = 1\<rparr>) \<and>
   fst (getAccessToken 5 ''device''
     \<lparr>fetched = Json \<lparr>access_token = Some [], token_type = Some ''bearer'',
                       expires_in = Some 3600, scope_field = Some ''*''\<rparr>,
      fetched_at = 100, save_ok = True\<rparr>
     \<lparr>config = Some \<lparr>clientId = ''abc'', accessToken = None, expiresAt = None, scope = None,
                      deviceId = None\<rparr>,
      tokenRefreshPromise = None, promises = [], token_requests = 0\<rparr>)
   = Inl (FailedToRefresh InvalidTokenResponse)"
proof -
  let ?m = "\<lparr>config = Some \<lparr>clientId = ''abc'', accessToken = None, expiresAt = None, scope = None,
                      deviceId = None\<rparr>,
      tokenRefreshPromise = None, promises = [], token_requests = 0\<rparr>"
  have h: "config ?m \<noteq> None \<and> auth_wf ?m" by (simp add: auth_wf_def)
  have v: "getAccessToken 5 ''device''
     \<lparr>fetched = Json \<lparr>access_token = Some ''tok'', token_type = Some ''bearer'',
                       expires_in = Some 3600, scope_field = Some ''*''\<rparr>,
      fetched_at = 100, save_ok = True\<rparr> ?m
   = (Inr (Some ''tok''),
      \<lparr>config = Some \<lparr>clientId = ''abc'', accessToken = Some ''tok'',
                       expiresAt = Some 3600100, scope = Some ''*'', deviceId = Some ''device''\<rparr>,
       tokenRefreshPromise = None, promises = [Resolved], token_requests = 1\<rparr>)"
    "fst (getAccessToken 5 ''device''
     \<lparr>fetched = Json \<lparr>access_token = Some [], token_type = Some ''bearer'',
                       expires_in = Some 3600, scope_field = Some ''*''\<rparr>,
      fetched_at = 100, save_ok = True\<rparr> ?m)
   = Inl (FailedToRefresh InvalidTokenResponse)"
    by (simp_all add: getAccessToken_def needs_refresh_def falsy_string_def refreshAccessToken_def
        doRefresh_start_def settle_def doRefresh_respond_def parse_token_json_def
        doRefresh_saved_def outcome_def token_or_null_def Let_def)
  from getAccessToken_token_or_error [of ?m 5 "''device''"] h v show ?thesis by simp
qed

section \<open>Concurrent callers share one refresh\<close>

lemma first_call:
  assumes "clientId c \<noteq> []" "needs_refresh now c"
    and "auth_step (Call i now r) (auth_init c n) = Some s"
  shows "flight b n s"
proof -
  have i: "i < n" using assms(3) by (auto simp: auth_init_def Let_def split: if_splits)
  define c' where "c' = (if falsy_string (deviceId c) then c\<lparr>deviceId := Some r\<rparr> else c)"
  have s: "s = \<lparr>manager = \<lparr>config = Some c', tokenRefreshPromise = Some 0, promises = [Fetching],
                 token_requests = 1\<rparr>,
               callers = (replicate n Idle)[i := InRefresh 0]\<rparr>"
    using assms i
    by (auto simp: auth_init_def Let_def doRefresh_start_def c'_def split: if_splits)
  have "caller_ok b m ((replicate n Idle)[i := InRefresh 0] ! k)" if "k < n" for k m
    using that by (cases "k = i") (simp_all add: caller_ok_def)
  moreover have "\<exists>j<n. (replicate n Idle)[i := InRefresh 0] ! j = InRefresh 0"
    using i by (intro exI [of _ i]) simp
  ultimately show ?thesis
    unfolding flight_def s
    by (auto simp: Let_def c'_def)
qed

lemma finish_cong: "config m' = config m \<Longrightarrow> finish m' res = finish m res"
  by (cases res) (simp_all add: finish_def)

lemma caller_ok_cong:
  "promises m' = promises m \<Longrightarrow> config m' = config m \<Longrightarrow> caller_ok b m' k = caller_ok b m k"
  using finish_cong [of m' m] by (cases k) (simp_all add: caller_ok_def)

lemma caller_ok_unsettled:
  "caller_ok b m k \<Longrightarrow> \<not> settled (promises m ! 0) \<Longrightarrow> caller_ok b m' k"
  by (auto simp: caller_ok_def split: caller.splits)

lemma flightI:
  assumes "length (callers s) = n" "length (promises (manager s)) = 1"
    "token_requests (manager s) = 1" "config (manager s) \<noteq> None"
    "tokenRefreshPromise (manager s) = Some 0 \<or> tokenRefreshPromise (manager s) = None"
    "tokenRefreshPromise (manager s) = None \<Longrightarrow> settled (promises (manager s) ! 0)"
    "tokenRefreshPromise (manager s) \<noteq> None \<Longrightarrow> \<exists>j<n. callers s ! j = InRefresh 0"
    "promises (manager s) ! 0 = Saving \<or> promises (manager s) ! 0 = Resolved
       \<Longrightarrow> has_token (manager s)"
    "\<And>i. i < n \<Longrightarrow> caller_ok b (manager s) (callers s ! i)"
  shows "flight b n s"
  unfolding flight_def Let_def
  by (intro conjI impI allI) (use assms in simp_all)

lemma flightD:
  assumes "flight b n s"
  shows "length (callers s) = n" "length (promises (manager s)) = 1"
    "token_requests (manager s) = 1" "config (manager s) \<noteq> None"
    "tokenRefreshPromise (manager s) = Some 0 \<or> tokenRefreshPromise (manager s) = None"
    "tokenRefreshPromise (manager s) = None \<Longrightarrow> settled (promises (manager s) ! 0)"
    "tokenRefreshPromise (manager s) \<noteq> None \<Longrightarrow> \<exists>j<n. callers s ! j = InRefresh 0"
    "promises (manager s) ! 0 = Saving \<or> promises (manager s) ! 0 = Resolved
       \<Longrightarrow> has_token (manager s)"
    "\<And>i. i < n \<Longrightarrow> caller_ok b (manager s) (callers s ! i)"
  using assms unfolding flight_def Let_def by simp_all

lemma flight_respond:
  assumes "flight b n s" "auth_step (Respond res now) s = Some s'"
  shows "flight b n s'"
proof -
  let ?m = "manager s"
  note D = flightD [OF assms(1)]
  have en: "tokenRefreshPromise ?m = Some 0" "promises ?m ! 0 = Fetching"
    using assms(2) D(5) by (auto simp: Let_def split: option.splits if_splits)
  have pne: "promises ?m \<noteq> []" using D(2) by auto
  obtain p' m' where r: "doRefresh_respond res now ?m = (p', m')"
    by (cases "doRefresh_respond res now ?m")
  have s': "s' = s\<lparr>manager := m'\<lparr>promises := (promises m')[0 := p']\<rparr>\<rparr>"
    using assms(2) en r pne by (simp add: Let_def)
  have uns: "\<not> settled (promises ?m ! 0)" using en by (simp add: settled_def)
  have m': "promises m' = promises ?m" "tokenRefreshPromise m' = tokenRefreshPromise ?m"
    "token_requests m' = token_requests ?m" "config m' \<noteq> None"
    "p' = Saving \<or> p' = Resolved \<Longrightarrow> has_token m'"
    using doRefresh_respond_cases [OF r] D(4)
    by (auto simp: has_token_def falsy_string_def)
  show ?thesis
  proof (rule flightI)
    show "length (callers s') = n" using D(1) by (simp add: s')
    show "length (promises (manager s')) = 1" using D(2) m'(1) by (simp add: s')
    show "token_requests (manager s') = 1" using D(3) m'(3) by (simp add: s')
    show "config (manager s') \<noteq> None" using m'(4) by (simp add: s')
    show "tokenRefreshPromise (manager s') = Some 0 \<or> tokenRefreshPromise (manager s') = None"
      using en(1) m'(2) by (simp add: s')
    show "settled (promises (manager s') ! 0)" if "tokenRefreshPromise (manager s') = None"
      using that en(1) m'(2) by (simp add: s')
    show "\<exists>j<n. callers s' ! j = InRefresh 0" if "tokenRefreshPromise (manager s') \<noteq> None"
      using D(7) en(1) by (simp add: s')
    show "has_token (manager s')"
      if "promises (manager s') ! 0 = Saving \<or> promises (manager s') ! 0 = Resolved"
      using that m'(1,5) pne by (simp add: s' has_token_def)
    show "caller_ok b (manager s') (callers s' ! i)" if "i < n" for i
    proof -
      have "caller_ok b ?m (callers s ! i)" using D(9) [OF that] .
      then have "caller_ok b (manager s') (callers s ! i)" using uns by (rule caller_ok_unsettled)
      then show ?thesis by (simp add: s')
    qed
  qed
qed

lemma flight_saved:
  assumes "flight b n s" "auth_step (Saved ok) s = Some s'"
  shows "flight b n s'"
proof -
  let ?m = "manager s"
  note D = flightD [OF assms(1)]
  have en: "tokenRefreshPromise ?m = Some 0" "promises ?m ! 0 = Saving"
    using assms(2) D(5) by (auto simp: Let_def split: option.splits if_splits)
  have pne: "promises ?m \<noteq> []" using D(2) by auto
  have s': "s' = s\<lparr>manager := ?m\<lparr>promises := (promises ?m)[0 := doRefresh_saved ok]\<rparr>\<rparr>"
    using assms(2) en pne by (simp add: Let_def)
  have uns: "\<not> settled (promises ?m ! 0)" using en by (simp add: settled_def)
  show ?thesis
  proof (rule flightI)
    show "length (callers s') = n" using D(1) by (simp add: s')
    show "length (promises (manager s')) = 1" using D(2) by (simp add: s')
    show "token_requests (manager s') = 1" using D(3) by (simp add: s')
    show "config (manager s') \<noteq> None" using D(4) by (simp add: s')
    show "tokenRefreshPromise (manager s') = Some 0 \<or> tokenRefreshPromise (manager s') = None"
      using en(1) by (simp add: s')
    show "settled (promises (manager s') ! 0)" if "tokenRefreshPromise (manager s') = None"
      using that en(1) by (simp add: s')
    show "\<exists>j<n. callers s' ! j = InRefresh 0" if "tokenRefreshPromise (manager s') \<noteq> None"
      using D(7) en(1) by (simp add: s')
    show "has_token (manager s')"
      if "promises (manager s') ! 0 = Saving \<or> promises (manager s') ! 0 = Resolved"
      using D(8) en(2) by (simp add: s' has_token_def)
    show "caller_ok b (manager s') (callers s' ! i)" if "i < n" for i
    proof -
      have "caller_ok b ?m (callers s ! i)" using D(9) [OF that] .
      then have "caller_ok b (manager s') (callers s ! i)" using uns by (rule caller_ok_unsettled)
      then show ?thesis by (simp add: s')
    qed
  qed
qed

lemma flight_resume:
  assumes "flight b n s" "auth_step (Resume i) s = Some s'"
  shows "flight b n s'"
proof -
  let ?m = "manager s"
  note D = flightD [OF assms(1)]
  have len: "length (callers s) = n" by (rule D(1))
  have i: "i < n" using assms(2) len by (auto simp: Let_def split: if_splits)
  have pne: "promises ?m \<noteq> []" using D(2) by auto
  have oki: "caller_ok b ?m (callers s ! i)" using D(9) i by simp
  have keep: "\<exists>j<n. (callers s)[i := k] ! j = InRefresh 0"
    if marker: "tokenRefreshPromise ?m \<noteq> None" and noti: "callers s ! i \<noteq> InRefresh 0" for k
  proof -
    obtain j where j: "j < n" "callers s ! j = InRefresh 0" using D(7) marker by blast
    then have "j \<noteq> i" using noti by auto
    then show ?thesis using j by (intro exI [of _ j]) simp
  qed
  have done_ok: "caller_ok b ?m ((callers s)[i := finish ?m (outcome (promises ?m ! 0))] ! k)"
    if st: "settled (promises ?m ! 0)" and k: "k < n" for k
  proof (cases "k = i")
    case True
    obtain r where "finish ?m (outcome (promises ?m ! 0)) = Done r"
      by (cases "finish ?m (outcome (promises ?m ! 0))")
        (auto simp: finish_def split: option.splits)
    then show ?thesis using True st len i by (simp add: caller_ok_def)
  next
    case False
    then show ?thesis using D(9) [OF k] by simp
  qed
  show ?thesis
  proof (cases "callers s ! i")
    case Idle
    then show ?thesis using assms(2) i len by (simp add: Let_def)
  next
    case (Done r)
    then show ?thesis using assms(2) i len by (simp add: Let_def)
  next
    case (AwaitingRefresh p)
    then have p: "p = 0" using oki by (simp add: caller_ok_def)
    have st: "settled (promises ?m ! 0)"
      using assms(2) AwaitingRefresh i len p by (auto simp: Let_def split: if_splits)
    have s': "s' = s\<lparr>callers := (callers s)[i := finish ?m (outcome (promises ?m ! 0))]\<rparr>"
      using assms(2) AwaitingRefresh i len p st pne by (simp add: Let_def)
    show ?thesis
    proof (rule flightI)
      show "length (callers s') = n" using len by (simp add: s')
      show "length (promises (manager s')) = 1" using D(2) by (simp add: s')
      show "token_requests (manager s') = 1" using D(3) by (simp add: s')
      show "config (manager s') \<noteq> None" using D(4) by (simp add: s')
      show "tokenRefreshPromise (manager s') = Some 0 \<or> tokenRefreshPromise (manager s') = None"
        using D(5) by (simp add: s')
      show "settled (promises (manager s') ! 0)" if "tokenRefreshPromise (manager s') = None"
        using st by (simp add: s')
      show "\<exists>j<n. callers s' ! j = InRefresh 0" if "tokenRefreshPromise (manager s') \<noteq> None"
        using that keep AwaitingRefresh by (simp add: s')
      show "has_token (manager s')"
        if "promises (manager s') ! 0 = Saving \<or> promises (manager s') ! 0 = Resolved"
        using that D(8) by (simp add: s')
      show "caller_ok b (manager s') (callers s' ! k)" if "k < n" for k
        using done_ok [OF st that] by (simp add: s')
    qed
  next
    case (InRefresh p)
    then have p: "p = 0" using oki by (simp add: caller_ok_def)
    have st: "settled (promises ?m ! 0)"
      using assms(2) InRefresh i len p by (auto simp: Let_def split: if_splits)
    have s': "s' = \<lparr>manager = ?m\<lparr>tokenRefreshPromise := None\<rparr>,
                    callers = (callers s)[i := Returning (outcome (promises ?m ! 0))]\<rparr>"
      using assms(2) InRefresh i len p st pne by (simp add: Let_def)
    show ?thesis
    proof (rule flightI)
      show "length (callers s') = n" using len by (simp add: s')
      show "length (promises (manager s')) = 1" using D(2) by (simp add: s')
      show "token_requests (manager s') = 1" using D(3) by (simp add: s')
      show "config (manager s') \<noteq> None" using D(4) by (simp add: s')
      show "tokenRefreshPromise (manager s') = Some 0 \<or> tokenRefreshPromise (manager s') = None"
        by (simp add: s')
      show "settled (promises (manager s') ! 0)" if "tokenRefreshPromise (manager s') = None"
        using st by (simp add: s')
      show "\<exists>j<n. callers s' ! j = InRefresh 0" if "tokenRefreshPromise (manager s') \<noteq> None"
        using that by (simp add: s')
      show "has_token (manager s')"
        if "promises (manager s') ! 0 = Saving \<or> promises (manager s') ! 0 = Resolved"
        using that D(8) by (simp add: s' has_token_def)
      show "caller_ok b (manager s') (callers s' ! k)" if "k < n" for k
      proof (cases "k = i")
        case True
        then show ?thesis using len i st by (simp add: s' caller_ok_def)
      next
        case False
        have "caller_ok b (?m\<lparr>tokenRefreshPromise := None\<rparr>) (callers s ! k)"
          using D(9) [OF that] caller_ok_cong [of "?m\<lparr>tokenRefreshPromise := None\<rparr>" ?m]
          by simp
        then show ?thesis using False by (simp add: s')
      qed
    qed
  next
    case (Returning res)
    have res: "settled (promises ?m ! 0)" "res = outcome (promises ?m ! 0)"
      using oki Returning by (simp_all add: caller_ok_def)
    have s': "s' = s\<lparr>callers := (callers s)[i := finish ?m (outcome (promises ?m ! 0))]\<rparr>"
      using assms(2) Returning i len res by (simp add: Let_def)
    show ?thesis
    proof (rule flightI)
      show "length (callers s') = n" using len by (simp add: s')
      show "length (promises (manager s')) = 1" using D(2) by (simp add: s')
      show "token_requests (manager s') = 1" using D(3) by (simp add: s')
      show "config (manager s') \<noteq> None" using D(4) by (simp add: s')
      show "tokenRefreshPromise (manager s') = Some 0 \<or> tokenRefreshPromise (manager s') = None"
        using D(5) by (simp add: s')
      show "settled (promises (manager s') ! 0)" if "tokenRefreshPromise (manager s') = None"
        using res(1) by (simp add: s')
      show "\<exists>j<n. callers s' ! j = InRefresh 0" if "tokenRefreshPromise (manager s') \<noteq> None"
        using that keep Returning by (simp add: s')
      show "has_token (manager s')"
        if "promises (manager s') ! 0 = Saving \<or> promises (manager s') ! 0 = Resolved"
        using that D(8) by (simp add: s')
      show "caller_ok b (manager s') (callers s' ! k)" if "k < n" for k
        using done_ok [OF res(1) that] by (simp add: s')
    qed
  qed
qed

lemma flight_step:
  assumes "flight b n s" "\<not> is_call e" "auth_step e s = Some s'"
  shows "flight b n s'"
proof (cases e)
  case (Call i now r)
  then show ?thesis using assms(2) by simp
next
  case (Respond res now)
  then show ?thesis using assms(1,3) flight_respond by blast
next
  case (Saved ok)
  then show ?thesis using assms(1,3) flight_saved by blast
next
  case (Resume i)
  then show ?thesis using assms(1,3) flight_resume by blast
qed

lemma auth_run_append:
  "auth_run (xs @ ys) s = (case auth_run xs s of None \<Rightarrow> None | Some s' \<Rightarrow> auth_run ys s')"
  by (induction xs arbitrary: s) (auto split: option.splits)

lemma flight_call:
  assumes "flight b n s" "refresh_underway s now" "b \<longrightarrow> no_valid_token s now"
    and "auth_step (Call i now r) s = Some s'"
  shows "flight b n s'"
proof -
  let ?m = "manager s"
  note D = flightD [OF assms(1)]
  obtain c where c: "config ?m = Some c" using D(4) by auto
  have ex: "list_ex (\<lambda>p. \<not> settled p) (promises ?m)"
    using assms(2) by (simp add: refresh_underway_def)
  obtain p0 where p0: "promises ?m = [p0]"
    using D(2) by (cases "promises ?m") simp_all
  have pending: "\<not> settled (promises ?m ! 0)"
    using ex unfolding p0 by simp
  have m: "tokenRefreshPromise ?m = Some 0"
    using pending D(5) D(6) by blast
  have i: "i < n" "callers s ! i = Idle"
    using assms(4) D(1) by (auto simp: Let_def split: if_splits)
  define k where "k = (if needs_refresh now c then AwaitingRefresh 0
                       else Done (Inr (token_or_null c)))"
  have s': "s' = s\<lparr>callers := (callers s)[i := k]\<rparr>"
    using assms(4) i D(1) c m by (cases "needs_refresh now c") (simp_all add: Let_def k_def)
  have "needs_refresh now c" if b using that assms(3) c by (simp add: no_valid_token_def)
  then have k: "caller_ok b m' k" for m'
    by (auto simp: k_def caller_ok_def)
  show ?thesis
  proof (rule flightI)
    show "length (callers s') = n" using D(1) by (simp add: s')
    show "length (promises (manager s')) = 1" using D(2) by (simp add: s')
    show "token_requests (manager s') = 1" using D(3) by (simp add: s')
    show "config (manager s') \<noteq> None" using D(4) by (simp add: s')
    show "tokenRefreshPromise (manager s') = Some 0 \<or> tokenRefreshPromise (manager s') = None"
      using D(5) by (simp add: s')
    show "settled (promises (manager s') ! 0)" if "tokenRefreshPromise (manager s') = None"
      using that m by (simp add: s')
    show "\<exists>j<n. callers s' ! j = InRefresh 0" if "tokenRefreshPromise (manager s') \<noteq> None"
    proof -
      obtain j where j: "j < n" "callers s ! j = InRefresh 0" using D(7) m by auto
      then have "j \<noteq> i" using i by auto
      then show ?thesis using j by (intro exI [of _ j]) (simp add: s')
    qed
    show "has_token (manager s')"
      if "promises (manager s') ! 0 = Saving \<or> promises (manager s') ! 0 = Resolved"
      using that D(8) by (simp add: s')
    show "caller_ok b (manager s') (callers s' ! j)" if "j < n" for j
    proof (cases "j = i")
      case True
      then show ?thesis using k D(1) i(1) by (simp add: s')
    next
      case False
      then show ?thesis using D(9) [OF that] by (simp add: s')
    qed
  qed
qed

lemma flight_all_calls:
  "flight b n s \<Longrightarrow> all_calls refresh_underway es s \<Longrightarrow>
   b \<longrightarrow> all_calls no_valid_token es s \<Longrightarrow> auth_run es s = Some s' \<Longrightarrow> flight b n s'"
proof (induction es arbitrary: s)
  case Nil
  then show ?case by simp
next
  case (Cons e es)
  then obtain s1 where s1: "auth_step e s = Some s1" "auth_run es s1 = Some s'"
    "all_calls refresh_underway es s1" "b \<longrightarrow> all_calls no_valid_token es s1"
    by (auto split: option.splits)
  have "flight b n s1"
  proof (cases e)
    case (Call i now r)
    then have "refresh_underway s now" "b \<longrightarrow> no_valid_token s now"
      using Cons.prems(2,3) by simp_all
    then show ?thesis using flight_call [OF Cons.prems(1)] s1(1) Call by blast
  next
    case (Respond res now)
    then show ?thesis using flight_step [OF Cons.prems(1) _ s1(1)] by simp
  next
    case (Saved ok)
    then show ?thesis using flight_step [OF Cons.prems(1) _ s1(1)] by simp
  next
    case (Resume i)
    then show ?thesis using flight_step [OF Cons.prems(1) _ s1(1)] by simp
  qed
  then show ?case using Cons.IH [OF _ s1(3,4) s1(2)] by simp
qed

lemma flight_enabled:
  assumes "flight b n s" "settled (promises (manager s) ! 0)" "i < n"
  shows "callers s ! i = Idle \<or> (\<exists>r. callers s ! i = Done r) \<or> auth_step (Resume i) s \<noteq> None"
proof -
  note D = flightD [OF assms(1)]
  have pne: "promises (manager s) \<noteq> []" using D(2) by auto
  have ok: "caller_ok b (manager s) (callers s ! i)" using D(9) assms(3) by simp
  show ?thesis
  proof (cases "callers s ! i")
    case (AwaitingRefresh p)
    then have "p = 0" using ok by (simp add: caller_ok_def)
    then show ?thesis using AwaitingRefresh assms(2,3) D(1) pne by (simp add: Let_def)
  next
    case (InRefresh p)
    then have "p = 0" using ok by (simp add: caller_ok_def)
    then show ?thesis using InRefresh assms(2,3) D(1) pne by (simp add: Let_def)
  next
    case (Returning res)
    then show ?thesis using assms(3) D(1) by (simp add: Let_def)
  qed simp_all
qed

lemma flight_suspended:
  assumes "flight b n s" "k < n" "callers s ! k = AwaitingRefresh p \<or> callers s ! k = InRefresh p"
  shows "p = 0"
  using flightD(9) [OF assms(1,2)] assms(3) by (auto simp: caller_ok_def)

text \<open>
  Claim C9. A first caller finds no valid token and starts a refresh; any number of
  further callers call while that refresh is under way (its promise has not settled:
  before the endpoint answers, or between the answer and the end of \<^verbatim>\<open>save\<close>); the
  endpoint answers, \<^verbatim>\<open>save\<close> ends and the callers are resumed in any order. Then
  exactly one request has gone to the token endpoint and exactly one refresh promise
  exists; while it is pending the marker holds it, so every suspended caller awaits that
  promise; a resolved refresh has left a token that is not empty; the marker is set only
  while the caller that started the refresh has not been resumed, whether the refresh
  resolved or rejected; and once the refresh has settled every suspended caller can be
  resumed. When moreover every call was made while no valid token existed, every caller
  that has returned carries the outcome of that one refresh, so any two of them observe
  the same token or the same error.
\<close>

theorem single_flight_refresh:
  assumes "clientId c \<noteq> []" and "needs_refresh now c"
    and "auth_step (Call i now r) (auth_init c n) = Some s1"
    and "all_calls refresh_underway es s1"
    and "auth_run es s1 = Some s"
  shows "token_requests (manager s) = 1 \<and> length (promises (manager s)) = 1 \<and>
         (\<not> settled (promises (manager s) ! 0) \<longrightarrow> tokenRefreshPromise (manager s) = Some 0) \<and>
         (\<forall>k<n. \<forall>p. callers s ! k = AwaitingRefresh p \<or> callers s ! k = InRefresh p
            \<longrightarrow> p = 0) \<and>
         (promises (manager s) ! 0 = Resolved \<longrightarrow> has_token (manager s)) \<and>
         (tokenRefreshPromise (manager s) \<noteq> None \<longrightarrow> (\<exists>j<n. callers s ! j = InRefresh 0)) \<and>
         (settled (promises (manager s) ! 0) \<longrightarrow>
            (\<forall>k<n. callers s ! k = Idle \<or> (\<exists>res. callers s ! k = Done res) \<or>
                   auth_step (Resume k) s \<noteq> None)) \<and>
         (all_calls no_valid_token es s1 \<longrightarrow>
            (\<forall>k<n. \<forall>res. callers s ! k = Done res \<longrightarrow>
               settled (promises (manager s) ! 0) \<and>
               Done res = finish (manager s) (outcome (promises (manager s) ! 0))) \<and>
            (\<forall>k<n. \<forall>j<n. \<forall>rk rj.
               callers s ! k = Done rk \<and> callers s ! j = Done rj \<longrightarrow> rk = rj))"
proof -
  have start: "flight b n s1" for b
    using assms(1,2,3) by (rule first_call)
  have fl: "flight False n s"
    using flight_all_calls [OF start assms(4) _ assms(5), of False] by simp
  note D = flightD [OF fl]
  have marker: "tokenRefreshPromise (manager s) = Some 0"
    if "\<not> settled (promises (manager s) ! 0)"
    using that D(5) D(6) by blast
  have susp: "p = 0"
    if "k < n" "callers s ! k = AwaitingRefresh p \<or> callers s ! k = InRefresh p" for k p
    using fl that by (rule flight_suspended)
  have en: "callers s ! k = Idle \<or> (\<exists>res. callers s ! k = Done res) \<or>
            auth_step (Resume k) s \<noteq> None"
    if "settled (promises (manager s) ! 0)" "k < n" for k
    using flight_enabled [OF fl that] .
  have general: "token_requests (manager s) = 1 \<and> length (promises (manager s)) = 1 \<and>
         (\<not> settled (promises (manager s) ! 0) \<longrightarrow> tokenRefreshPromise (manager s) = Some 0) \<and>
         (\<forall>k<n. \<forall>p. callers s ! k = AwaitingRefresh p \<or> callers s ! k = InRefresh p
            \<longrightarrow> p = 0) \<and>
         (promises (manager s) ! 0 = Resolved \<longrightarrow> has_token (manager s)) \<and>
         (tokenRefreshPromise (manager s) \<noteq> None \<longrightarrow> (\<exists>j<n. callers s ! j = InRefresh 0)) \<and>
         (settled (promises (manager s) ! 0) \<longrightarrow>
            (\<forall>k<n. callers s ! k = Idle \<or> (\<exists>res. callers s ! k = Done res) \<or>
                   auth_step (Resume k) s \<noteq> None))"
    using D(2) D(3) D(7) D(8) marker susp en by blast
  have strict: "(\<forall>k<n. \<forall>res. callers s ! k = Done res \<longrightarrow>
               settled (promises (manager s) ! 0) \<and>
               Done res = finish (manager s) (outcome (promises (manager s) ! 0))) \<and>
            (\<forall>k<n. \<forall>j<n. \<forall>rk rj.
               callers s ! k = Done rk \<and> callers s ! j = Done rj \<longrightarrow> rk = rj)"
    if nt: "all_calls no_valid_token es s1"
  proof -
    have fs: "flight True n s"
      using flight_all_calls [OF start assms(4) _ assms(5), of True] nt by simp
    have fin: "settled (promises (manager s) ! 0) \<and>
            Done res = finish (manager s) (outcome (promises (manager s) ! 0))"
      if "k < n" "callers s ! k = Done res" for k res
      using flightD(9) [OF fs that(1)] that(2) by (simp add: caller_ok_def)
    have same: "rk = rj" if "k < n" "j < n" "callers s ! k = Done rk" "callers s ! j = Done rj"
      for k j rk rj
    proof -
      have "Done rk = Done rj" using fin [OF that(1,3)] fin [OF that(2,4)] by simp
      then show ?thesis by simp
    qed
    show ?thesis using fin same by blast
  qed
  show ?thesis using general strict by blast
qed

text \<open>
  Four runs. The first caller of each finds a token that has expired. In the first run
  two callers arrive before the endpoint answers and all three return the new token. In
  the second the endpoint answers with status 500 and the three callers return that
  error; the marker is clear, and a fourth call made afterwards starts a second refresh.
  In the third the new token expires within the buffer, so a caller that arrives while
  \<^verbatim>\<open>save\<close> is pending finds no valid token and awaits the promise; \<^verbatim>\<open>save\<close> fails
  and both callers return that error. In the fourth the new token is valid when a caller
  arrives while \<^verbatim>\<open>save\<close> is pending: that call is not made while no valid token exists;
  it returns the token at once, and when \<^verbatim>\<open>save\<close> fails the caller that started the
  refresh returns the error. Still one request has gone to the token endpoint.
\<close>

theorem single_flight_refresh_witness:
  "auth_run
     [Call 0 5 ''dev'', Call 2 6 ''d2'', Call 1 7 ''d1'',
      Respond (Json \<lparr>access_token = Some ''tok'', token_type = Some ''bearer'',
                      expires_in = Some 3600, scope_field = Some ''*''\<rparr>) 100,
      Saved True, Resume 2, Resume 0, Resume 1, Resume 0]
     (auth_init \<lparr>clientId = ''abc'', accessToken = Some ''old'', expiresAt = Some 1000,
                 scope = Some ''*'', deviceId = None\<rparr> 3)
   = Some \<lparr>manager =
             \<lparr>config = Some \<lparr>clientId = ''abc'', accessToken = Some ''tok'',
                              expiresAt = Some 3600100, scope = Some ''*'',
                              deviceId = Some ''dev''\<rparr>,
              tokenRefreshPromise = None, promises = [Resolved], token_requests = 1\<rparr>,
           callers = [Done (Inr (Some ''tok'')), Done (Inr (Some ''tok'')),
                      Done (Inr (Some ''tok''))]\<rparr> \<and>
   auth_run
     [Call 0 5 ''dev'', Call 2 6 ''d2'', Call 1 7 ''d1'', Respond (NotOk 500) 100,
      Resume 2, Resume 1, Resume 0, Resume 0]
     (auth_init \<lparr>clientId = ''abc'', accessToken = Some ''old'', expiresAt = Some 1000,
                 scope = Some ''*'', deviceId = None\<rparr> 4)
   = Some \<lparr>manager =
             \<lparr>config = Some \<lparr>clientId = ''abc'', accessToken = Some ''old'',
                              expiresAt = Some 1000, scope = Some ''*'',
                              deviceId = Some ''dev''\<rparr>,
              tokenRefreshPromise = None,
              promises = [Rejected (FailedToRefresh (TokenEndpointStatus 500))],
              token_requests = 1\<rparr>,
           callers = [Done (Inl (FailedToRefresh (TokenEndpointStatus 500))),
                      Done (Inl (FailedToRefresh (TokenEndpointStatus 500))),
                      Done (Inl (FailedToRefresh (TokenEndpointStatus 500))), Idle]\<rparr> \<and>
   map_option (\<lambda>s. (token_requests (manager s), tokenRefreshPromise (manager s), callers s ! 3))
     (auth_run
       [Call 0 5 ''dev'', Call 2 6 ''d2'', Call 1 7 ''d1'', Respond (NotOk 500) 100,
        Resume 2, Resume 1, Resume 0, Resume 0, Call 3 200 ''d3'']
       (auth_init \<lparr>clientId = ''abc'', accessToken = Some ''old'', expiresAt = Some 1000,
                   scope = Some ''*'', deviceId = None\<rparr> 4))
   = Some (2, Some 1, InRefresh 1) \<and>
   map_option (\<lambda>s. (token_requests (manager s), tokenRefreshPromise (manager s), callers s))
     (auth_run
       [Call 0 5 ''dev'',
        Respond (Json \<lparr>access_token = Some ''tok'', token_type = Some ''bearer'',
                        expires_in = Some 5, scope_field = Some ''*''\<rparr>) 100,
        Call 1 150 ''d1'', Saved False, Resume 1, Resume 0, Resume 0]
       (auth_init \<lparr>clientId = ''abc'', accessToken = Some ''old'', expiresAt = Some 1000,
                   scope = Some ''*'', deviceId = None\<rparr> 2))
   = Some (1, None, [Done (Inl (FailedToRefresh SaveFailed)),
                     Done (Inl (FailedToRefresh SaveFailed))]) \<and>
   map_option (\<lambda>s. (token_requests (manager s), tokenRefreshPromise (manager s), callers s))
     (auth_run
       [Call 0 5 ''dev'',
        Respond (Json \<lparr>access_token = Some ''tok'', token_type = Some ''bearer'',
                        expires_in = Some 3600, scope_field = Some ''*''\<rparr>) 100,
        Call 1 150 ''d1'', Saved False, Resume 0, Resume 0]
       (auth_init \<lparr>clientId = ''abc'', accessToken = Some ''old'', expiresAt = Some 1000,
                   scope = Some ''*'', deviceId = None\<rparr> 2))
   = Some (1, None, [Done (Inl (FailedToRefresh SaveFailed)), Done (Inr (Some ''tok''))])"
proof -
  let ?c = "\<lparr>clientId = ''abc'', accessToken = Some ''old'', expiresAt = Some 1000,
                 scope = Some ''*'', deviceId = None\<rparr>"
  let ?c' = "\<lparr>clientId = ''abc'', accessToken = Some ''old'', expiresAt = Some 1000,
                 scope = Some ''*'', deviceId = Some ''dev''\<rparr>"
  let ?s1 = "\<lambda>n. \<lparr>manager = \<lparr>config = Some ?c', tokenRefreshPromise = Some 0,
                 promises = [Fetching], token_requests = 1\<rparr>,
               callers = (InRefresh 0) # n\<rparr>"
  let ?ok = "[Call 2 6 ''d2'', Call 1 7 ''d1'',
      Respond (Json \<lparr>access_token = Some ''tok'', token_type = Some ''bearer'',
                      expires_in = Some 3600, scope_field = Some ''*''\<rparr>) 100,
      Saved True, Resume 2, Resume 0, Resume 1, Resume 0]"
  let ?ko = "[Call 2 6 ''d2'', Call 1 7 ''d1'', Respond (NotOk 500) 100,
      Resume 2, Resume 1, Resume 0, Resume 0]"
  let ?sv = "[Respond (Json \<lparr>access_token = Some ''tok'', token_type = Some ''bearer'',
                        expires_in = Some 5, scope_field = Some ''*''\<rparr>) 100,
        Call 1 150 ''d1'', Saved False, Resume 1, Resume 0, Resume 0]"
  let ?sw = "[Respond (Json \<lparr>access_token = Some ''tok'', token_type = Some ''bearer'',
                        expires_in = Some 3600, scope_field = Some ''*''\<rparr>) 100,
        Call 1 150 ''d1'', Saved False, Resume 0, Resume 0]"
  note defs = auth_init_def needs_refresh_def falsy_string_def isTokenExpired_def
    TOKEN_EXPIRATION_BUFFER_MS_def
    doRefresh_start_def doRefresh_respond_def doRefresh_saved_def parse_token_json_def
    refresh_underway_def no_valid_token_def settled_def finish_def outcome_def
    token_or_null_def Let_def
  have h1: "clientId ?c \<noteq> []" by simp
  have h2: "needs_refresh 5 ?c" by (simp add: defs)
  have a: "auth_step (Call 0 5 ''dev'') (auth_init ?c 3) = Some (?s1 [Idle, Idle])"
    by (simp add: defs eval_nat_numeral)
  have b: "auth_step (Call 0 5 ''dev'') (auth_init ?c 4) = Some (?s1 [Idle, Idle, Idle])"
    by (simp add: defs eval_nat_numeral)
  have c: "auth_step (Call 0 5 ''dev'') (auth_init ?c 2) = Some (?s1 [Idle])"
    by (simp add: defs eval_nat_numeral)
  have d1: "all_calls refresh_underway ?ok (?s1 [Idle, Idle])"
    "all_calls no_valid_token ?ok (?s1 [Idle, Idle])"
    by (simp_all add: defs eval_nat_numeral)
  have d2: "all_calls refresh_underway ?ko (?s1 [Idle, Idle, Idle])"
    "all_calls no_valid_token ?ko (?s1 [Idle, Idle, Idle])"
    by (simp_all add: defs eval_nat_numeral)
  have d3: "all_calls refresh_underway ?sv (?s1 [Idle])" "all_calls no_valid_token ?sv (?s1 [Idle])"
    by (simp_all add: defs eval_nat_numeral)
  have d4: "all_calls refresh_underway ?sw (?s1 [Idle])"
    "\<not> all_calls no_valid_token ?sw (?s1 [Idle])"
    by (simp_all add: defs eval_nat_numeral)
  have r1: "auth_run ?ok (?s1 [Idle, Idle]) = Some \<lparr>manager =
             \<lparr>config = Some \<lparr>clientId = ''abc'', accessToken = Some ''tok'',
                              expiresAt = Some 3600100, scope = Some ''*'',
                              deviceId = Some ''dev''\<rparr>,
              tokenRefreshPromise = None, promises = [Resolved], token_requests = 1\<rparr>,
           callers = [Done (Inr (Some ''tok'')), Done (Inr (Some ''tok'')),
                      Done (Inr (Some ''tok''))]\<rparr>"
    by (simp add: defs eval_nat_numeral)
  have r2: "auth_run ?ko (?s1 [Idle, Idle, Idle]) = Some \<lparr>manager =
             \<lparr>config = Some ?c', tokenRefreshPromise = None,
              promises = [Rejected (FailedToRefresh (TokenEndpointStatus 500))],
              token_requests = 1\<rparr>,
           callers = [Done (Inl (FailedToRefresh (TokenEndpointStatus 500))),
                      Done (Inl (FailedToRefresh (TokenEndpointStatus 500))),
                      Done (Inl (FailedToRefresh (TokenEndpointStatus 500))), Idle]\<rparr>"
    by (simp add: defs eval_nat_numeral)
  have r3: "auth_step (Call 3 200 ''d3'') \<lparr>manager =
             \<lparr>config = Some ?c', tokenRefreshPromise = None,
              promises = [Rejected (FailedToRefresh (TokenEndpointStatus 500))],
              token_requests = 1\<rparr>,
           callers = [Done (Inl (FailedToRefresh (TokenEndpointStatus 500))),
                      Done (Inl (FailedToRefresh (TokenEndpointStatus 500))),
                      Done (Inl (FailedToRefresh (TokenEndpointStatus 500))), Idle]\<rparr>
      = Some \<lparr>manager =
             \<lparr>config = Some ?c', tokenRefreshPromise = Some 1,
              promises = [Rejected (FailedToRefresh (TokenEndpointStatus 500)), Fetching],
              token_requests = 2\<rparr>,
           callers = [Done (Inl (FailedToRefresh (TokenEndpointStatus 500))),
                      Done (Inl (FailedToRefresh (TokenEndpointStatus 500))),
                      Done (Inl (FailedToRefresh (TokenEndpointStatus 500))), InRefresh 1]\<rparr>"
    by (simp add: defs)
  have r3': "auth_run (?ko @ [Call 3 200 ''d3'']) (?s1 [Idle, Idle, Idle]) = Some \<lparr>manager =
             \<lparr>config = Some ?c', tokenRefreshPromise = Some 1,
              promises = [Rejected (FailedToRefresh (TokenEndpointStatus 500)), Fetching],
              token_requests = 2\<rparr>,
           callers = [Done (Inl (FailedToRefresh (TokenEndpointStatus 500))),
                      Done (Inl (FailedToRefresh (TokenEndpointStatus 500))),
                      Done (Inl (FailedToRefresh (TokenEndpointStatus 500))), InRefresh 1]\<rparr>"
    unfolding auth_run_append r2 using r3 by simp
  have r4: "auth_run ?sv (?s1 [Idle]) = Some \<lparr>manager =
             \<lparr>config = Some \<lparr>clientId = ''abc'', accessToken = Some ''tok'',
                              expiresAt = Some 5100, scope = Some ''*'',
                              deviceId = Some ''dev''\<rparr>,
              tokenRefreshPromise = None,
              promises = [Rejected (FailedToRefresh SaveFailed)], token_requests = 1\<rparr>,
           callers = [Done (Inl (FailedToRefresh SaveFailed)),
                      Done (Inl (FailedToRefresh SaveFailed))]\<rparr>"
    by (simp add: defs eval_nat_numeral)
  have r5: "auth_run ?sw (?s1 [Idle]) = Some \<lparr>manager =
             \<lparr>config = Some \<lparr>clientId = ''abc'', accessToken = Some ''tok'',
                              expiresAt = Some 3600100, scope = Some ''*'',
                              deviceId = Some ''dev''\<rparr>,
              tokenRefreshPromise = None,
              promises = [Rejected (FailedToRefresh SaveFailed)], token_requests = 1\<rparr>,
           callers = [Done (Inl (FailedToRefresh SaveFailed)),
                      Done (Inr (Some ''tok''))]\<rparr>"
    by (simp add: defs eval_nat_numeral)
  from single_flight_refresh [OF h1 h2 a d1(1) r1] single_flight_refresh [OF h1 h2 b d2(1) r2]
    single_flight_refresh [OF h1 h2 c d3(1) r4] single_flight_refresh [OF h1 h2 c d4(1) r5]
    a b c d1 d2 d3 d4 r1 r2 r3' r4 r5
  show ?thesis by simp
qed

section \<open>Request dispatcher (RedditAPI.getImpl)\<close>

text \<open>
  A JavaScript error as the \<^verbatim>\<open>catch\<close> block reads it: its \<^verbatim>\<open>name\<close>, its \<^verbatim>\<open>code\<close>,
  its \<^verbatim>\<open>cause\<close> (with \<^verbatim>\<open>code\<close>, \<^verbatim>\<open>hostname\<close> and \<^verbatim>\<open>message\<close>) and its
  \<^verbatim>\<open>message\<close>. \<open>Error msg\<close> is \<^verbatim>\<open>new Error(msg)\<close>.
\<close>

record js_cause =
  cause_code :: "string option"
  cause_hostname :: "string option"
  cause_message :: "string option"

record js_error =
  ename :: string
  code :: "string option"
  cause :: "js_cause option"
  message :: string

definition Error :: "string \<Rightarrow> js_error" where
  "Error msg = \<lparr>ename = ''Error'', code = None, cause = None, message = msg\<rparr>"

text \<open>
  A response: its status, its \<^verbatim>\<open>content-type\<close> header, what
  \<^verbatim>\<open>getRetryAfterDelay\<close> reads from it (milliseconds, \<open>None\<close> for \<^verbatim>\<open>null\<close>), and
  what \<^verbatim>\<open>response.text()\<close> and \<^verbatim>\<open>response.json()\<close> give (\<open>None\<close> and \<open>Inl\<close>
  when they throw).
\<close>

record 'p response =
  status :: int
  content_type :: "string option"
  retry_after :: "int option"
  body_text :: "string option"
  body_json :: "js_error + 'p"

definition response_ok :: "'p response \<Rightarrow> bool" where
  "response_ok r \<longleftrightarrow> 200 \<le> status r \<and> status r \<le> 299"

text \<open>
  What one invocation of \<^verbatim>\<open>getImpl\<close> meets. The rate limiter and the token manager
  are shared with the other requests in flight, so their answers are inputs here:
  whether \<^verbatim>\<open>canMakeRequest()\<close> admits (and the text of \<^verbatim>\<open>getErrorMessage\<close>), the
  error \<^verbatim>\<open>getHeaders()\<close> throws if any, \<^verbatim>\<open>isAuthenticated()\<close>, the response or the
  error of \<^verbatim>\<open>fetch\<close>, the message of the error \<^verbatim>\<open>recordRequest()\<close> throws if any,
  whether the forced refresh after a 401 succeeds, whether the \<^verbatim>\<open>getHeaders()\<close> that
  follows that refresh succeeds, and \<^verbatim>\<open>Math.random()\<close>.
\<close>

record 'p attempt =
  admitted :: bool
  rate_message :: string
  headers_error :: "js_error option"
  isAuthenticated :: bool
  network :: "js_error + 'p response"
  record_error :: "string option"
  refresh_ok :: bool
  headers_again_ok :: bool
  random :: rat

text \<open>
  What an invocation does, in order: its calls to the rate limiter, the token manager
  and the network, the delays it computes with \<^verbatim>\<open>calculateBackoff\<close>, and its waits.
\<close>

datatype effect =
    CheckRateLimit | GetHeaders | NetworkCall | RecordRequest | RefreshToken
  | CalculateBackoff int | Sleep int

text \<open>\<^verbatim>\<open>String.prototype.includes\<close>, and the match of \<^verbatim>\<open>/\/r\/([^\/]+)/\<close>.\<close>

fun str_includes :: "string \<Rightarrow> string \<Rightarrow> bool" where
  "str_includes sub [] = (sub = [])"
| "str_includes sub (ch # s) = (startsWith sub (ch # s) \<or> str_includes sub s)"

fun subreddit_match :: "string \<Rightarrow> string option" where
  "subreddit_match [] = None"
| "subreddit_match (ch # s) =
     (let capture = takeWhile (\<lambda>x. x \<noteq> CHR ''/'') (drop 3 (ch # s)) in
      if startsWith ''/r/'' (ch # s) \<and> capture \<noteq> [] then Some capture
      else subreddit_match s)"

text \<open>The errors thrown for a response that is not ok, and for an HTML body.\<close>

definition not_found_error :: "string \<Rightarrow> js_error" where
  "not_found_error endpoint =
     (let subredditName = (case subreddit_match endpoint of Some n \<Rightarrow> n | None \<Rightarrow> ''resource'')
      in Error (''Not found - r/'' @ subredditName @ '' does not exist or is inaccessible''))"

definition forbidden_error :: "string \<Rightarrow> js_error" where
  "forbidden_error endpoint =
     (case subreddit_match endpoint of
        Some subredditName \<Rightarrow>
          Error (''Cannot access r/'' @ subredditName @
                 '' - it may be private, quarantined, or doesn't exist. '' @
                 ''Try a public subreddit like 'programming', 'technology', or 'news'' @
                 [CHR 0x27])
      | None \<Rightarrow>
          Error ''Access forbidden - the requested content may be private or restricted'')"

definition html_error :: js_error where
  "html_error =
     Error (''Reddit returned HTML instead of JSON - the subreddit may be inaccessible '' @
            ''or there may be a Reddit issue'')"

definition api_error :: "'p response \<Rightarrow> js_error" where
  "api_error r =
     (let errorText = (case body_text r of Some t \<Rightarrow> t | None \<Rightarrow> ''Unable to read error response'')
      in Error (''Reddit API error ('' @ int_to_string 10 (status r) @ ''): '' @ errorText))"

text \<open>
  \<^verbatim>\<open>contentType.toLowerCase().split(';')[0].trim()\<close> is \<^verbatim>\<open>text/html\<close> or
  \<^verbatim>\<open>application/xhtml+xml\<close>; a missing or empty header is not looked at.
\<close>

definition is_html :: "'p response \<Rightarrow> bool" where
  "is_html r =
     (case content_type r of
        None \<Rightarrow> False
      | Some contentType \<Rightarrow>
          contentType \<noteq> [] \<and>
          (let normalizedType = trim (takeWhile (\<lambda>x. x \<noteq> CHR '';'') (toLowerCase contentType))
           in normalizedType = ''text/html'' \<or> normalizedType = ''application/xhtml+xml''))"

text \<open>
  The \<^verbatim>\<open>catch\<close> block: it retries after a backoff, or throws. Every error thrown inside
  the \<^verbatim>\<open>try\<close> block passes through it, also the errors the block throws itself for a
  status or an HTML body.
\<close>

datatype catch_outcome = RetryAfterBackoff | Throw js_error

definition handle_error :: "int \<Rightarrow> js_error \<Rightarrow> catch_outcome" where
  "handle_error retries error =
     (if ename error = ''AbortError'' then
        (if retries > 0 then RetryAfterBackoff
         else Throw (Error (''Request timeout (10s exceeded) - Reddit may be slow or unreachable. '' @
                ''Try again or check if Reddit is blocked on your network.'')))
      else if code error = Some ''ECONNRESET'' \<and> retries > 0 then RetryAfterBackoff
      else if code error = Some ''ENOTFOUND'' then
        Throw (Error (''Cannot resolve Reddit domain - check DNS settings or if Reddit is '' @
               ''blocked by your ISP/firewall''))
      else if code error = Some ''ECONNREFUSED'' then
        Throw (Error ''Connection refused - Reddit may be blocked by firewall or network policy'')
      else if code error = Some ''ETIMEDOUT'' then
        (if retries > 0 then RetryAfterBackoff
         else Throw (Error ''Connection timeout - Reddit may be blocked or network is unstable''))
      else if code error = Some ''UNABLE_TO_VERIFY_LEAF_SIGNATURE'' then
        Throw (Error ''SSL certificate error - may be caused by proxy or firewall'')
      else if (case cause error of None \<Rightarrow> False | Some c \<Rightarrow> cause_code c = Some ''ENOTFOUND'') then
        Throw (Error (''Cannot reach Reddit servers - '' @
               (case cause error of
                  None \<Rightarrow> ''reddit.com''
                | Some c \<Rightarrow>
                    (case cause_hostname c of
                       None \<Rightarrow> ''reddit.com''
                     | Some h \<Rightarrow> if h = [] then ''reddit.com'' else h)) @
               '' is not accessible. Check if Reddit is blocked in your region/network.''))
      else if str_includes ''fetch failed'' (message error) then
        Throw (Error (''Failed to connect to Reddit'' @
               (case cause error of
                  None \<Rightarrow> []
                | Some c \<Rightarrow>
                    '' ('' @
                    (case cause_code c of
                       Some cc \<Rightarrow>
                         if cc = []
                         then (case cause_message c of None \<Rightarrow> ''undefined'' | Some m \<Rightarrow> m)
                         else cc
                     | None \<Rightarrow>
                         (case cause_message c of None \<Rightarrow> ''undefined'' | Some m \<Rightarrow> m)) @
                    '')'') @
               ''. Common causes: firewall blocking, geo-restriction, or ISP blocking Reddit.''))
      else if str_includes ''fetch'' (message error) then
        Throw (Error (''Network error accessing Reddit: '' @ message error @
               ''. If Reddit works in your browser, try using a VPN.''))
      else Throw error)"

text \<open>
  The \<^verbatim>\<open>try\<close> block of one invocation: it returns the payload, throws, or goes on to
  the next invocation (after the effects listed, a wait if any). After a 401 the
  refresh and the second \<^verbatim>\<open>getHeaders()\<close> run inside an inner \<^verbatim>\<open>try\<close> whose
  \<^verbatim>\<open>catch\<close> throws the one authentication error for either failure.
\<close>

datatype 'p try_outcome = Return 'p | Thrown js_error | Again "effect list"

definition try_block :: "string \<Rightarrow> int \<Rightarrow> 'p attempt \<Rightarrow> 'p try_outcome \<times> effect list" where
  "try_block endpoint retries a =
     (case network a of
        Inl error \<Rightarrow> (Thrown error, [NetworkCall])
      | Inr r \<Rightarrow>
          (case record_error a of
             Some msg \<Rightarrow> (Thrown (Error msg), [NetworkCall, RecordRequest])
           | None \<Rightarrow>
               if status r = 401 \<and> isAuthenticated a \<and> retries > 0 then
                 (if \<not> refresh_ok a then
                    (Thrown (Error ''Authentication failed. Please run: reddit-mcp-buddy --auth''),
                     [NetworkCall, RecordRequest, RefreshToken])
                  else if \<not> headers_again_ok a then
                    (Thrown (Error ''Authentication failed. Please run: reddit-mcp-buddy --auth''),
                     [NetworkCall, RecordRequest, RefreshToken, GetHeaders])
                  else (Again [], [NetworkCall, RecordRequest, RefreshToken, GetHeaders]))
               else if \<not> response_ok r then
                 (if (status r = 503 \<or> status r = 429) \<and> retries > 0 then
                    (case retry_after r of
                       Some retryAfterDelay \<Rightarrow>
                         (Again [Sleep retryAfterDelay], [NetworkCall, RecordRequest])
                     | None \<Rightarrow>
                         (let backoffMs = calculateBackoff (random a) retries
                          in (Again [CalculateBackoff backoffMs, Sleep backoffMs],
                              [NetworkCall, RecordRequest])))
                  else if status r = 404 then
                    (Thrown (not_found_error endpoint), [NetworkCall, RecordRequest])
                  else if status r = 403 then
                    (Thrown (forbidden_error endpoint), [NetworkCall, RecordRequest])
                  else if status r = 429 then
                    (Thrown (Error ''Rate limited by Reddit - please wait before trying again''),
                     [NetworkCall, RecordRequest])
                  else if status r = 503 then
                    (Thrown (Error ''Reddit is temporarily unavailable - please try again later''),
                     [NetworkCall, RecordRequest])
                  else (Thrown (api_error r), [NetworkCall, RecordRequest]))
               else if is_html r then (Thrown html_error, [NetworkCall, RecordRequest])
               else
                 (case body_json r of
                    Inl error \<Rightarrow> (Thrown error, [NetworkCall, RecordRequest])
                  | Inr payload \<Rightarrow> (Return payload, [NetworkCall, RecordRequest]))))"

text \<open>
  \<^verbatim>\<open>getImpl\<close>. \<open>env k\<close> is what the \<open>k\<close>-th invocation meets; a retry is the
  next invocation, with one retry less. The result is the payload or the error thrown,
  with the effects in order. The errors of \<^verbatim>\<open>canMakeRequest\<close> and \<^verbatim>\<open>getHeaders\<close>
  are thrown before the \<^verbatim>\<open>try\<close> block and do not pass through \<^verbatim>\<open>catch\<close>.
  The \<^verbatim>\<open>try\<close> block and the \<^verbatim>\<open>catch\<close> block go on to a next invocation only
  while \<open>retries > 0\<close>; the test is repeated here, where the recursion is, and its
  two \<open>else\<close> branches are never taken.
\<close>

function getImpl ::
  "(nat \<Rightarrow> 'p attempt) \<Rightarrow> nat \<Rightarrow> string \<Rightarrow> int \<Rightarrow> (js_error + 'p) \<times> effect list" where
  "getImpl env k endpoint retries =
     (let a = env k in
      if \<not> admitted a then (Inl (Error (rate_message a)), [CheckRateLimit])
      else
        (case headers_error a of
           Some error \<Rightarrow> (Inl error, [CheckRateLimit, GetHeaders])
         | None \<Rightarrow>
             (case try_block endpoint retries a of
                (Return payload, effs) \<Rightarrow> (Inr payload, [CheckRateLimit, GetHeaders] @ effs)
              | (Again wait, effs) \<Rightarrow>
                  if retries > 0 then
                    (case getImpl env (Suc k) endpoint (retries - 1) of
                       (res, later) \<Rightarrow>
                         (res, [CheckRateLimit, GetHeaders] @ effs @ wait @ later))
                  else (Inl (Error []), [CheckRateLimit, GetHeaders] @ effs)
              | (Thrown error, effs) \<Rightarrow>
                  (case handle_error retries error of
                     Throw e \<Rightarrow> (Inl e, [CheckRateLimit, GetHeaders] @ effs)
                   | RetryAfterBackoff \<Rightarrow>
                       if retries > 0 then
                         (let backoffMs = calculateBackoff (random a) retries in
                          case getImpl env (Suc k) endpoint (retries - 1) of
                            (res, later) \<Rightarrow>
                              (res, [CheckRateLimit, GetHeaders] @ effs @
                                    [CalculateBackoff backoffMs, Sleep backoffMs] @ later))
                       else (Inl error, [CheckRateLimit, GetHeaders] @ effs)))))"
  by pat_completeness auto
termination
  by (relation "measure (\<lambda>(env, k, endpoint, retries). nat retries)") auto

text \<open>
  The error the \<^verbatim>\<open>try\<close> block throws for a 404, for a 403, and for an HTML body of
  a response that is ok.
\<close>

definition fatal_error :: "string \<Rightarrow> 'p response \<Rightarrow> js_error" where
  "fatal_error endpoint r =
     (if status r = 404 then not_found_error endpoint
      else if status r = 403 then forbidden_error endpoint
      else html_error)"

text \<open>The delays an invocation has computed with \<^verbatim>\<open>calculateBackoff\<close>, in order.\<close>

fun backoffs :: "effect list \<Rightarrow> int list" where
  "backoffs [] = []"
| "backoffs (CalculateBackoff d # es) = d # backoffs es"
| "backoffs (e # es) = backoffs es"

section \<open>Responses that are fatal at once\<close>

lemma startsWith_append: "startsWith (a @ b) s \<Longrightarrow> startsWith a s"
  by (auto simp: startsWith_def) (metis append_eq_conv_conj take_take min.absorb1 le_add1 length_append)

lemma str_includes_append: "str_includes (a @ b) s \<Longrightarrow> str_includes a s"
proof (induction s)
  case Nil
  then show ?case by simp
next
  case (Cons ch s)
  then show ?case using startsWith_append [of a b "ch # s"] by auto
qed

lemma handle_error_Error:
  "\<exists>e. handle_error retries (Error msg) = Throw e"
  by (simp add: handle_error_def Error_def)

lemma handle_error_plain:
  assumes "\<not> str_includes ''fetch'' msg"
  shows "handle_error retries (Error msg) = Throw (Error msg)"
proof -
  have "\<not> str_includes (''fetch'' @ '' failed'') msg"
    using assms str_includes_append by blast
  then show ?thesis using assms by (simp add: handle_error_def Error_def)
qed

lemma message_Error: "Error (message (Error msg)) = Error msg"
  by (simp add: Error_def)

lemma is_Error:
  "\<exists>msg. not_found_error endpoint = Error msg"
  "\<exists>msg. forbidden_error endpoint = Error msg"
  "\<exists>msg. html_error = Error msg"
  by (auto simp: not_found_error_def forbidden_error_def html_error_def Let_def
      split: option.splits)

lemma fatal_error_is_Error: "\<exists>msg. fatal_error endpoint r = Error msg"
  using is_Error by (simp add: fatal_error_def)

lemma try_block_fatal:
  assumes "network a = Inr r"
    and "status r = 404 \<or> status r = 403 \<or> (response_ok r \<and> is_html r)"
  shows "try_block endpoint retries a =
           (Thrown (case record_error a of Some msg \<Rightarrow> Error msg
                                          | None \<Rightarrow> fatal_error endpoint r),
            [NetworkCall, RecordRequest])"
  using assms
  by (auto simp: try_block_def fatal_error_def response_ok_def split: option.splits)

text \<open>
  Claim C7, as amended. When the attempt is admitted, the headers are obtained and
  \<^verbatim>\<open>fetch\<close> returns a 404, a 403, or a response that is ok (2xx) with an HTML or
  XHTML content type, \<^verbatim>\<open>getImpl\<close> fails with an error after that one network call:
  no wait, no token refresh and no further invocation follow, whatever the retries left.
  When \<^verbatim>\<open>recordRequest\<close> did not throw and the message of the classifying error
  does not contain the word the \<^verbatim>\<open>catch\<close> block looks for, the error thrown is that
  classifying error.
\<close>

theorem fatal_responses_not_retried:
  assumes "admitted (env k)" and "headers_error (env k) = None"
    and "network (env k) = Inr r"
    and "status r = 404 \<or> status r = 403 \<or> (response_ok r \<and> is_html r)"
  shows "(\<exists>e. getImpl env k endpoint retries
              = (Inl e, [CheckRateLimit, GetHeaders, NetworkCall, RecordRequest])) \<and>
         (record_error (env k) = None \<and>
          \<not> str_includes ''fetch'' (message (fatal_error endpoint r))
            \<longrightarrow> fst (getImpl env k endpoint retries) = Inl (fatal_error endpoint r))"
proof -
  define err where "err = (case record_error (env k) of Some msg \<Rightarrow> Error msg
                            | None \<Rightarrow> fatal_error endpoint r)"
  have tb: "try_block endpoint retries (env k) = (Thrown err, [NetworkCall, RecordRequest])"
    unfolding err_def using assms(3,4) by (rule try_block_fatal)
  obtain msg where msg: "err = Error msg"
  proof (cases "record_error (env k)")
    case None
    then show ?thesis using fatal_error_is_Error [of endpoint r] that by (auto simp: err_def)
  next
    case (Some m)
    then show ?thesis using that [of m] by (simp add: err_def)
  qed
  obtain e where e: "handle_error retries err = Throw e"
    using handle_error_Error [of retries msg] msg by auto
  have run: "getImpl env k endpoint retries
      = (Inl e, [CheckRateLimit, GetHeaders, NetworkCall, RecordRequest])"
    using assms(1,2) tb e by (subst getImpl.simps) (simp add: Let_def)
  have "e = fatal_error endpoint r"
    if "record_error (env k) = None"
       "\<not> str_includes ''fetch'' (message (fatal_error endpoint r))"
  proof -
    have eq: "fatal_error endpoint r = Error msg" using that(1) msg by (simp add: err_def)
    have "message (Error msg) = msg" by (simp add: Error_def)
    then have "\<not> str_includes ''fetch'' msg" using that(2) unfolding eq by simp
    then show ?thesis using handle_error_plain [of msg retries] e msg eq by simp
  qed
  then show ?thesis using run by simp
qed

theorem fatal_responses_not_retried_witness:
  "getImpl
     (\<lambda>k. \<lparr>admitted = True, rate_message = ''Rate limit reached'', headers_error = None,
            isAuthenticated = False,
            network = Inr \<lparr>status = 404, content_type = Some ''application/json'',
                            retry_after = None, body_text = Some ''{}'',
                            body_json = Inr ''{}''\<rparr>,
            record_error = None, refresh_ok = True, headers_again_ok = True,
            random = 1 / 2\<rparr>)
     0 ''/r/nosuchsub/hot.json?limit=10'' 2
   = (Inl (Error ''Not found - r/nosuchsub does not exist or is inaccessible''),
      [CheckRateLimit, GetHeaders, NetworkCall, RecordRequest])"
proof -
  let ?r = "\<lparr>status = 404, content_type = Some ''application/json'',
                            retry_after = None, body_text = Some ''{}'',
                            body_json = Inr ''{}''\<rparr> :: string response"
  let ?env = "\<lambda>k::nat. \<lparr>admitted = True, rate_message = ''Rate limit reached'', headers_error = None,
            isAuthenticated = False, network = Inr ?r,
            record_error = None, refresh_ok = True, headers_again_ok = True,
            random = 1 / 2\<rparr>"
  have h: "admitted (?env 0)" "headers_error (?env 0) = None" "network (?env 0) = Inr ?r"
    "status ?r = 404 \<or> status ?r = 403 \<or> (response_ok ?r \<and> is_html ?r)"
    by simp_all
  have f: "fatal_error ''/r/nosuchsub/hot.json?limit=10'' ?r
      = Error ''Not found - r/nosuchsub does not exist or is inaccessible''"
    by (simp add: fatal_error_def not_found_error_def startsWith_def Let_def)
  have n: "\<not> str_includes ''fetch''
      (message (Error ''Not found - r/nosuchsub does not exist or is inaccessible''))"
    by (simp add: Error_def startsWith_def)
  from fatal_responses_not_retried [of ?env 0 ?r "''/r/nosuchsub/hot.json?limit=10''" 2, OF h]
  show ?thesis unfolding f using n by (auto simp: prod_eq_iff)
qed

text \<open>
  The claim as stated (any response with an HTML content type fails at once) fails: a
  503 with an HTML body is handled as a 503 first; with retries left the dispatcher
  waits and calls the network again, and here the second response succeeds.
\<close>

theorem html_503_retried_counterexample:
  "getImpl
     (\<lambda>k. \<lparr>admitted = True, rate_message = ''Rate limit reached'', headers_error = None,
            isAuthenticated = False,
            network =
              (if k = 0
               then Inr \<lparr>status = 503, content_type = Some ''text/html; charset=utf-8'',
                         retry_after = None, body_text = Some ''<html>'',
                         body_json = Inl (Error ''Unexpected token'')\<rparr>
               else Inr \<lparr>status = 200, content_type = Some ''application/json'',
                         retry_after = None, body_text = Some ''{}'',
                         body_json = Inr ''{}''\<rparr>),
            record_error = None, refresh_ok = True, headers_again_ok = True,
            random = 1 / 2\<rparr>)
     0 ''/r/programming/hot.json?limit=10'' 2
   = (Inr ''{}'',
      [CheckRateLimit, GetHeaders, NetworkCall, RecordRequest, CalculateBackoff 100,
       Sleep 100, CheckRateLimit, GetHeaders, NetworkCall, RecordRequest]) \<and>
   is_html \<lparr>status = 503, content_type = Some ''text/html; charset=utf-8'',
             retry_after = None, body_text = Some ''<html>'',
             body_json = (Inl (Error ''Unexpected token'') :: js_error + string)\<rparr>"
proof -
  have b: "calculateBackoff (1 / 2) 2 = 100" by code_simp
  have h: "is_html \<lparr>status = 503, content_type = Some ''text/html; charset=utf-8'',
             retry_after = None, body_text = Some ''<html>'',
             body_json = (Inl (Error ''Unexpected token'') :: js_error + string)\<rparr>"
    by (simp add: is_html_def toLowerCase_def lower_char_def trim_def white_space_def Let_def)
  have j: "\<not> is_html \<lparr>status = 200, content_type = Some ''application/json'',
                         retry_after = None, body_text = Some ''{}'',
                         body_json = (Inr ''{}'' :: js_error + string)\<rparr>"
    by (simp add: is_html_def toLowerCase_def lower_char_def trim_def white_space_def Let_def)
  show ?thesis
    using h j
    by (simp add: getImpl.simps [of _ 0] getImpl.simps [of _ "Suc 0"] try_block_def
        response_ok_def b Let_def)
qed

section \<open>The delays the dispatcher computes grow and stay below the ceiling\<close>

lemma backoffs_append: "backoffs (xs @ ys) = backoffs xs @ backoffs ys"
  by (induction xs rule: backoffs.induct) simp_all

lemma try_block_backoffs:
  assumes "try_block endpoint retries a = (out, effs)"
  shows "backoffs effs = []"
    and "out = Again w \<Longrightarrow>
         backoffs w = [] \<or> (0 < retries \<and> backoffs w = [calculateBackoff (random a) retries])"
  using assms
  by (auto simp: try_block_def Let_def split: sum.splits option.splits if_splits)

lemma getImpl_effects:
  "\<exists>pre w. backoffs pre = [] \<and>
     (backoffs w = [] \<or> (0 < retries \<and> backoffs w = [calculateBackoff (random (env k)) retries])) \<and>
     (snd (getImpl env k endpoint retries) = pre \<or>
      (0 < retries \<and>
       snd (getImpl env k endpoint retries) = pre @ w @ snd (getImpl env (Suc k) endpoint (retries - 1))))"
proof -
  let ?a = "env k"
  let ?next = "getImpl env (Suc k) endpoint (retries - 1)"
  show ?thesis
  proof (cases "admitted ?a \<and> headers_error ?a = None")
    case False
    then have "snd (getImpl env k endpoint retries) = [CheckRateLimit]
        \<or> snd (getImpl env k endpoint retries) = [CheckRateLimit, GetHeaders]"
      by (subst (1 2) getImpl.simps) (auto simp: Let_def split: option.splits)
    then have "backoffs (snd (getImpl env k endpoint retries)) = []" by auto
    then show ?thesis by (intro exI [of _ "snd (getImpl env k endpoint retries)"] exI [of _ "[]"]) simp
  next
    case True
    obtain out effs where tb: "try_block endpoint retries ?a = (out, effs)"
      by (cases "try_block endpoint retries ?a")
    note B = try_block_backoffs [OF tb]
    show ?thesis
    proof (cases out)
      case (Return payload)
      then have "snd (getImpl env k endpoint retries) = [CheckRateLimit, GetHeaders] @ effs"
        using True tb by (subst getImpl.simps) (simp add: Let_def)
      then show ?thesis using B(1)
        by (intro exI [of _ "[CheckRateLimit, GetHeaders] @ effs"] exI [of _ "[]"]) simp
    next
      case (Again w)
      show ?thesis
      proof (cases "0 < retries")
        case r: True
        have "snd (getImpl env k endpoint retries)
            = ([CheckRateLimit, GetHeaders] @ effs) @ w @ snd ?next"
          using True tb Again r by (subst getImpl.simps) (simp add: Let_def split: prod.splits)
        then show ?thesis using B(1) B(2) [OF Again] r
          by (intro exI [of _ "[CheckRateLimit, GetHeaders] @ effs"] exI [of _ w]) simp
      next
        case False
        then have "snd (getImpl env k endpoint retries) = [CheckRateLimit, GetHeaders] @ effs"
          using True tb Again by (subst getImpl.simps) (simp add: Let_def)
        then show ?thesis using B(1)
          by (intro exI [of _ "[CheckRateLimit, GetHeaders] @ effs"] exI [of _ "[]"]) simp
      qed
    next
      case (Thrown error)
      show ?thesis
      proof (cases "handle_error retries error = RetryAfterBackoff \<and> 0 < retries")
        case r: True
        define d where "d = calculateBackoff (random ?a) retries"
        have "snd (getImpl env k endpoint retries)
            = ([CheckRateLimit, GetHeaders] @ effs) @ [CalculateBackoff d, Sleep d] @ snd ?next"
          using True tb Thrown r
          by (subst getImpl.simps) (simp add: Let_def d_def split: prod.splits)
        then show ?thesis using B(1) r
          by (intro exI [of _ "[CheckRateLimit, GetHeaders] @ effs"]
                exI [of _ "[CalculateBackoff d, Sleep d]"]) (simp add: d_def)
      next
        case False
        then have "snd (getImpl env k endpoint retries) = [CheckRateLimit, GetHeaders] @ effs"
          using True tb Thrown
          by (subst getImpl.simps) (auto simp: Let_def split: catch_outcome.splits)
        then show ?thesis using B(1)
          by (intro exI [of _ "[CheckRateLimit, GetHeaders] @ effs"] exI [of _ "[]"]) simp
      qed
    qed
  qed
qed

lemma backoff_floor_mono:
  "round (75 * (2::rat) powi (2 - r)) \<le> round (75 * (2::rat) powi (2 - (r - 1)))"
proof -
  have "(2::rat) powi (2 - r) \<le> 2 powi (2 - (r - 1))" by (rule two_powi_mono) simp
  then show ?thesis by (intro round_mono) simp
qed

lemma backoff_below_next:
  "round (125 * (2::rat) powi (2 - r)) \<le> round (75 * (2::rat) powi (2 - (r - 1)))"
proof -
  have "2 - (r - 1) = 2 - r + 1" by simp
  then have "(2::rat) powi (2 - (r - 1)) = 2 powi (2 - r) * 2"
    using power_int_add_1 [of "2::rat" "2 - r"] by simp
  moreover have "0 \<le> (2::rat) powi (2 - r)" by simp
  ultimately have "125 * (2::rat) powi (2 - r) \<le> 75 * 2 powi (2 - (r - 1))" by linarith
  then show ?thesis by (rule round_mono)
qed

lemma getImpl_backoffs:
  assumes "\<forall>j. 0 \<le> random (env j) \<and> random (env j) < 1"
  shows "sorted (backoffs (snd (getImpl env k endpoint retries))) \<and>
         (\<forall>d\<in>set (backoffs (snd (getImpl env k endpoint retries))).
            round (75 * (2::rat) powi (2 - retries)) \<le> d \<and> d \<le> 250)"
proof (induction "nat retries" arbitrary: retries k rule: less_induct)
  case less
  let ?bs = "backoffs (snd (getImpl env k endpoint retries))"
  let ?later = "backoffs (snd (getImpl env (Suc k) endpoint (retries - 1)))"
  from getImpl_effects [of retries env k endpoint] obtain pre w where
    pre: "backoffs pre = []"
    and w: "backoffs w = [] \<or> (0 < retries \<and> backoffs w = [calculateBackoff (random (env k)) retries])"
    and e: "snd (getImpl env k endpoint retries) = pre \<or>
      (0 < retries \<and>
       snd (getImpl env k endpoint retries) = pre @ w @ snd (getImpl env (Suc k) endpoint (retries - 1)))"
    by blast
  from e show ?case
  proof
    assume "snd (getImpl env k endpoint retries) = pre"
    then show ?thesis using pre by simp
  next
    assume r: "0 < retries \<and>
       snd (getImpl env k endpoint retries) = pre @ w @ snd (getImpl env (Suc k) endpoint (retries - 1))"
    then have bs: "?bs = backoffs w @ ?later" using pre by (simp add: backoffs_append)
    have "nat (retries - 1) < nat retries" using r by simp
    from less.hyps [OF this, of "Suc k"] have IH: "sorted ?later"
      "\<And>d. d \<in> set ?later \<Longrightarrow> round (75 * (2::rat) powi (2 - (retries - 1))) \<le> d \<and> d \<le> 250"
      by simp_all
    have later: "round (75 * (2::rat) powi (2 - retries)) \<le> d \<and> d \<le> 250" if "d \<in> set ?later" for d
      using IH(2) [OF that] backoff_floor_mono [of retries] by linarith
    from w show ?thesis
    proof
      assume "backoffs w = []"
      then show ?thesis using bs IH(1) later by simp
    next
      assume "0 < retries \<and> backoffs w = [calculateBackoff (random (env k)) retries]"
      then have w1: "backoffs w = [calculateBackoff (random (env k)) retries]" by simp
      define d0 where "d0 = calculateBackoff (random (env k)) retries"
      have u: "0 \<le> random (env k)" "random (env k) < 1" using assms by simp_all
      have r1: "1 \<le> retries" using r by simp
      note R = backoff_range [OF r1 u] backoff_bounds [OF r1 u]
      have first: "d0 \<le> d" if "d \<in> set ?later" for d
        using IH(2) [OF that] R(2) backoff_below_next [of retries] unfolding d0_def by linarith
      have "?bs = d0 # ?later" using bs w1 by (simp add: d0_def)
      moreover have "sorted (d0 # ?later)" using first IH(1) by simp
      moreover have "round (75 * (2::rat) powi (2 - retries)) \<le> d0 \<and> d0 \<le> 250"
        using R(1,4) by (simp add: d0_def)
      ultimately show ?thesis using later by simp
    qed
  qed
qed

text \<open>
  Claim C6. Whatever retry budget an invocation of \<^verbatim>\<open>getImpl\<close> starts with and
  whatever it meets on the way, as long as every outcome of \<^verbatim>\<open>Math.random()\<close> lies in
  \<open>[0, 1)\<close> (the jitter then covers the symmetric range of 20% either way): the delays
  it computes with \<^verbatim>\<open>calculateBackoff\<close>, in the order of its retries, never decrease,
  and none of them is negative or exceeds \<^verbatim>\<open>MAX_BACKOFF_MS\<close>. The dispatcher computes
  a backoff only behind a test \<open>retries > 0\<close>, so \<^verbatim>\<open>calculateBackoff\<close> receives
  budgets of at least 1, where the base delay is at most 200 ms.
\<close>

theorem backoff_monotone_below_ceiling:
  assumes "\<forall>j. 0 \<le> random (env j) \<and> random (env j) < 1"
  shows "sorted (backoffs (snd (getImpl env k endpoint retries))) \<and>
         (\<forall>d\<in>set (backoffs (snd (getImpl env k endpoint retries))).
            0 \<le> d \<and> of_int d \<le> MAX_BACKOFF_MS)"
proof -
  have "(0::rat) \<le> 75 * 2 powi (2 - retries)" by simp
  then have "round (0::rat) \<le> round (75 * (2::rat) powi (2 - retries))" by (rule round_mono)
  then have lb: "0 \<le> round (75 * (2::rat) powi (2 - retries))" by simp
  have "0 \<le> d \<and> of_int d \<le> MAX_BACKOFF_MS"
    if "round (75 * (2::rat) powi (2 - retries)) \<le> d \<and> d \<le> 250" for d
  proof -
    have "(of_int d :: rat) \<le> of_int 250" using that by (simp only: of_int_le_iff)
    then show ?thesis using that lb by (simp add: MAX_BACKOFF_MS_def)
  qed
  then show ?thesis using getImpl_backoffs [OF assms, of k endpoint retries] by blast
qed

text \<open>
  A run with a budget of 2: a 503 without \<^verbatim>\<open>Retry-After\<close> is retried from the
  \<^verbatim>\<open>try\<close> block after 120 ms (jitter outcome 0.999), a timeout is retried from the
  \<^verbatim>\<open>catch\<close> block after 160 ms (jitter outcome 0), and the third response succeeds.
\<close>

theorem backoff_monotone_below_ceiling_witness:
  "getImpl
     (\<lambda>k. \<lparr>admitted = True, rate_message = ''Rate limit reached'', headers_error = None,
            isAuthenticated = False,
            network =
              (if k = 0
               then Inr \<lparr>status = 503, content_type = Some ''text/html'', retry_after = None,
                         body_text = Some ''<html>'', body_json = Inl (Error ''Unexpected token'')\<rparr>
               else if k = 1
               then Inl \<lparr>ename = ''AbortError'', code = None, cause = None,
                         message = ''This operation was aborted''\<rparr>
               else Inr \<lparr>status = 200, content_type = Some ''application/json'',
                         retry_after = None, body_text = Some ''{}'', body_json = Inr ''{}''\<rparr>),
            record_error = None, refresh_ok = True, headers_again_ok = True,
            random = (if k = 0 then 999 / 1000 else 0)\<rparr>)
     0 ''/r/programming/hot.json?limit=10'' 2
   = (Inr ''{}'',
      [CheckRateLimit, GetHeaders, NetworkCall, RecordRequest, CalculateBackoff 120, Sleep 120,
       CheckRateLimit, GetHeaders, NetworkCall, CalculateBackoff 160, Sleep 160,
       CheckRateLimit, GetHeaders, NetworkCall, RecordRequest]) \<and>
   sorted [120, 160 :: int] \<and> (160 :: rat) \<le> MAX_BACKOFF_MS"
proof -
  let ?env = "\<lambda>k::nat. \<lparr>admitted = True, rate_message = ''Rate limit reached'', headers_error = None,
            isAuthenticated = False,
            network =
              (if k = 0
               then Inr \<lparr>status = 503, content_type = Some ''text/html'', retry_after = None,
                         body_text = Some ''<html>'', body_json = Inl (Error ''Unexpected token'')\<rparr>
               else if k = 1
               then Inl \<lparr>ename = ''AbortError'', code = None, cause = None,
                         message = ''This operation was aborted''\<rparr>
               else Inr \<lparr>status = 200, content_type = Some ''application/json'',
                         retry_after = None, body_text = Some ''{}'',
                         body_json = (Inr ''{}'' :: js_error + string)\<rparr>),
            record_error = None, refresh_ok = True, headers_again_ok = True,
            random = (if k = 0 then 999 / 1000 else 0)\<rparr>"
  have h: "\<forall>j. 0 \<le> random (?env j) \<and> random (?env j) < 1" by simp
  have b: "calculateBackoff (999 / 1000) 2 = 120" "calculateBackoff 0 1 = 160" by code_simp+
  have j: "\<not> is_html \<lparr>status = 200, content_type = Some ''application/json'',
                         retry_after = None, body_text = Some ''{}'',
                         body_json = (Inr ''{}'' :: js_error + string)\<rparr>"
    by (simp add: is_html_def toLowerCase_def lower_char_def trim_def white_space_def Let_def)
  have run: "getImpl ?env 0 ''/r/programming/hot.json?limit=10'' 2
   = (Inr ''{}'',
      [CheckRateLimit, GetHeaders, NetworkCall, RecordRequest, CalculateBackoff 120, Sleep 120,
       CheckRateLimit, GetHeaders, NetworkCall, CalculateBackoff 160, Sleep 160,
       CheckRateLimit, GetHeaders, NetworkCall, RecordRequest])"
    using j
    by (simp add: getImpl.simps [of _ 0] getImpl.simps [of _ "Suc 0"]
        getImpl.simps [of _ "Suc (Suc 0)"] try_block_def handle_error_def response_ok_def b
        Let_def)
  from backoff_monotone_below_ceiling [OF h, of 0 "''/r/programming/hot.json?limit=10''" 2] run
  show ?thesis by simp
qed

end
